theory Spec2Isabelle
  imports Complex_Main "HOL-Library.Multiset"
begin

chapter \<open>The embedding of \<^verbatim>\<open>utils.py\<close>\<close>

text \<open>
  Every function of \<^verbatim>\<open>utils.py\<close> that a property below is about is translated here,
  in the order of the source. Printing and the progress bars of \<^verbatim>\<open>tqdm\<close> change no
  result and are left out. A loop is a recursive function over the list it runs
  through, with the variables it updates as arguments.
\<close>

section \<open>Python values shared by the embedding\<close>

text \<open>
  The exceptions of Python that the modelled functions of \<^verbatim>\<open>utils.py\<close> can raise.
  A function that may raise returns \<open>py_error + 'a\<close>, with \<open>Inl\<close> for the exception.
\<close>

datatype py_error = KeyError | IndexError | ValueError

text \<open>Sequencing of two steps of which the first may raise.\<close>

fun and_then :: "py_error + 'a \<Rightarrow> ('a \<Rightarrow> py_error + 'b) \<Rightarrow> py_error + 'b" where
  "and_then (Inl e) f = Inl e"
| "and_then (Inr x) f = f x"

text \<open>
  Python's \<^verbatim>\<open>xs[i]\<close> for a list: a negative index counts from the end, and an index
  outside the list raises IndexError. The function returns the position read.
\<close>

definition py_position :: "nat \<Rightarrow> int \<Rightarrow> py_error + nat" where
  "py_position n i =
     (let j = (if i < 0 then int n + i else i)
      in if 0 \<le> j \<and> j < int n then Inr (nat j) else Inl IndexError)"

definition py_getitem :: "'a list \<Rightarrow> int \<Rightarrow> py_error + 'a" where
  "py_getitem xs i = and_then (py_position (length xs) i) (\<lambda>k. Inr (xs ! k))"

section \<open>\<^verbatim>\<open>class Vocab\<close>: the entries of the vocabulary\<close>

text \<open>
  \<^verbatim>\<open>class Vocab\<close>: the occurrence count and the index of a word. The vocabulary is a
  dictionary from word to \<open>Vocab\<close>; \<^verbatim>\<open>vocab[word].index\<close> raises KeyError for a word
  that is not a key.
\<close>

record Vocab =
  count :: nat
  index :: nat

definition vocab_index :: "('a \<rightharpoonup> Vocab) \<Rightarrow> 'a \<Rightarrow> py_error + nat" where
  "vocab_index vocab word = (case vocab word of None \<Rightarrow> Inl KeyError | Some entry \<Rightarrow> Inr (index entry))"

text \<open>The index and the count of a word that is in the vocabulary.\<close>

definition index_of :: "('a \<rightharpoonup> Vocab) \<Rightarrow> 'a \<Rightarrow> nat" where
  "index_of vocab word = index (the (vocab word))"

definition count_of :: "('a \<rightharpoonup> Vocab) \<Rightarrow> 'a \<Rightarrow> nat" where
  "count_of vocab word = count (the (vocab word))"

section \<open>\<^verbatim>\<open>get_G_from_edges\<close>: the undirected adjacency structure\<close>

text \<open>
  \<^verbatim>\<open>edge_dict = defaultdict(set)\<close>: a dictionary from node to a set of nodes in which
  reading a missing key creates the empty set. \<^verbatim>\<open>edge_dict[u].add(v)\<close> is
  \<open>add_neighbor\<close>. The endpoints are strings, on which \<^verbatim>\<open>str\<close> is the identity.
\<close>

type_synonym graph = "string \<rightharpoonup> string set"

definition add_neighbor :: "graph \<Rightarrow> string \<Rightarrow> string \<Rightarrow> graph" where
  "add_neighbor edge_dict u v =
     edge_dict(u \<mapsto> insert v (case edge_dict u of None \<Rightarrow> {} | Some s \<Rightarrow> s))"

fun add_edges :: "graph \<Rightarrow> (string \<times> string) list \<Rightarrow> graph" where
  "add_edges edge_dict [] = edge_dict"
| "add_edges edge_dict ((u, v) # edges) =
     add_edges (add_neighbor (add_neighbor edge_dict u v) v u) edges"

definition get_G_from_edges :: "(string \<times> string) list \<Rightarrow> graph" where
  "get_G_from_edges edges = add_edges Map.empty edges"

text \<open>What the adjacency structure holds for a node, read off the edge list.\<close>

definition endpoints :: "(string \<times> string) list \<Rightarrow> string set" where
  "endpoints edges = fst ` set edges \<union> snd ` set edges"

definition neighbours_of :: "(string \<times> string) list \<Rightarrow> string \<Rightarrow> string set" where
  "neighbours_of edges u = {v. (u, v) \<in> set edges \<or> (v, u) \<in> set edges}"

section \<open>\<^verbatim>\<open>generate_pairs\<close>: the skip-gram training pairs\<close>

text \<open>
  A training pair \<^verbatim>\<open>(center index, context index, layer_id)\<close>, and
  \<^verbatim>\<open>pairs.append((vocab[walk[i]].index, vocab[walk[k]].index, layer_id))\<close>.
\<close>

type_synonym pair = "nat \<times> nat \<times> nat"

definition append_pair ::
  "('a \<rightharpoonup> Vocab) \<Rightarrow> 'a list \<Rightarrow> nat \<Rightarrow> nat \<Rightarrow> nat \<Rightarrow> pair list \<Rightarrow> py_error + pair list" where
  "append_pair vocab walk layer_id i k pairs =
     and_then (vocab_index vocab (walk ! i)) (\<lambda>center.
     and_then (vocab_index vocab (walk ! k)) (\<lambda>neighbor.
     Inr (pairs @ [(center, neighbor, layer_id)])))"

text \<open>
  The four nested loops of \<^verbatim>\<open>generate_pairs\<close>, innermost first: over the distances
  \<^verbatim>\<open>range(1, skip_window + 1)\<close>, over the positions \<^verbatim>\<open>range(len(walk))\<close>, over the
  walks of a layer, and over the layers with their number. \<^verbatim>\<open>window_size // 2\<close> is
  floor division, as \<open>div\<close> on \<open>int\<close>. The parameter \<^verbatim>\<open>num_workers\<close> is not used
  by the source.
\<close>

fun distance_loop ::
  "('a \<rightharpoonup> Vocab) \<Rightarrow> 'a list \<Rightarrow> nat \<Rightarrow> nat \<Rightarrow> int list \<Rightarrow> pair list \<Rightarrow> py_error + pair list" where
  "distance_loop vocab walk layer_id i [] pairs = Inr pairs"
| "distance_loop vocab walk layer_id i (j # js) pairs =
     and_then (if int i - j \<ge> 0
               then append_pair vocab walk layer_id i (nat (int i - j)) pairs
               else Inr pairs) (\<lambda>pairs.
     and_then (if int i + j < int (length walk)
               then append_pair vocab walk layer_id i (nat (int i + j)) pairs
               else Inr pairs) (\<lambda>pairs.
     distance_loop vocab walk layer_id i js pairs))"

fun position_loop ::
  "('a \<rightharpoonup> Vocab) \<Rightarrow> int \<Rightarrow> 'a list \<Rightarrow> nat \<Rightarrow> nat list \<Rightarrow> pair list \<Rightarrow> py_error + pair list" where
  "position_loop vocab skip_window walk layer_id [] pairs = Inr pairs"
| "position_loop vocab skip_window walk layer_id (i # is) pairs =
     and_then (distance_loop vocab walk layer_id i [1..skip_window] pairs) (\<lambda>pairs.
     position_loop vocab skip_window walk layer_id is pairs)"

fun walks_loop ::
  "('a \<rightharpoonup> Vocab) \<Rightarrow> int \<Rightarrow> nat \<Rightarrow> 'a list list \<Rightarrow> pair list \<Rightarrow> py_error + pair list" where
  "walks_loop vocab skip_window layer_id [] pairs = Inr pairs"
| "walks_loop vocab skip_window layer_id (walk # walks) pairs =
     and_then (position_loop vocab skip_window walk layer_id [0..<length walk] pairs) (\<lambda>pairs.
     walks_loop vocab skip_window layer_id walks pairs)"

fun layers_loop ::
  "('a \<rightharpoonup> Vocab) \<Rightarrow> int \<Rightarrow> nat \<Rightarrow> 'a list list list \<Rightarrow> pair list \<Rightarrow> py_error + pair list" where
  "layers_loop vocab skip_window layer_id [] pairs = Inr pairs"
| "layers_loop vocab skip_window layer_id (walks # all_walks) pairs =
     and_then (walks_loop vocab skip_window layer_id walks pairs) (\<lambda>pairs.
     layers_loop vocab skip_window (Suc layer_id) all_walks pairs)"

definition generate_pairs ::
  "'a list list list \<Rightarrow> ('a \<rightharpoonup> Vocab) \<Rightarrow> int \<Rightarrow> nat \<Rightarrow> py_error + pair list" where
  "generate_pairs all_walks vocab window_size num_workers =
     layers_loop vocab (window_size div 2) 0 all_walks []"

text \<open>
  The pairs described position by position: for the position \<open>i\<close> and the distance
  \<open>j\<close>, the pair with the word at \<open>i - j\<close> when that position is in the walk, then the
  pair with the word at \<open>i + j\<close> when that one is.
\<close>

definition context_pairs :: "('a \<Rightarrow> nat) \<Rightarrow> nat \<Rightarrow> 'a list \<Rightarrow> nat \<Rightarrow> int \<Rightarrow> pair list" where
  "context_pairs idx layer walk i j =
     (if int i - j \<ge> 0 then [(idx (walk ! i), idx (walk ! nat (int i - j)), layer)] else []) @
     (if int i + j < int (length walk) then [(idx (walk ! i), idx (walk ! nat (int i + j)), layer)] else [])"

definition walk_pairs :: "('a \<Rightarrow> nat) \<Rightarrow> int \<Rightarrow> nat \<Rightarrow> 'a list \<Rightarrow> pair list" where
  "walk_pairs idx half layer walk =
     concat (map (\<lambda>i. concat (map (context_pairs idx layer walk i) [1..half])) [0..<length walk])"

definition corpus_pairs :: "('a \<Rightarrow> nat) \<Rightarrow> int \<Rightarrow> 'a list list list \<Rightarrow> pair list" where
  "corpus_pairs idx half all_walks =
     concat (map (\<lambda>(layer, walks). concat (map (walk_pairs idx half layer) walks))
       (enumerate 0 all_walks))"

text \<open>Every word of every walk of every layer is a key of the vocabulary.\<close>

definition words_known :: "('a \<rightharpoonup> Vocab) \<Rightarrow> 'a list list list \<Rightarrow> bool" where
  "words_known vocab all_walks \<longleftrightarrow>
     (\<forall>walks \<in> set all_walks. \<forall>walk \<in> set walks. set walk \<subseteq> dom vocab)"

text \<open>A vocabulary of three words for the examples.\<close>

definition toy_vocab :: "string \<rightharpoonup> Vocab" where
  "toy_vocab = [''a'' \<mapsto> \<lparr>count = 2, index = 0\<rparr>, ''b'' \<mapsto> \<lparr>count = 2, index = 1\<rparr>,
     ''c'' \<mapsto> \<lparr>count = 1, index = 2\<rparr>]"

section \<open>\<^verbatim>\<open>generate_vocab\<close>: counting words and ranking them\<close>

text \<open>
  \<^verbatim>\<open>raw_vocab = defaultdict(int)\<close> is iterated later, so the order of its keys matters:
  a dictionary keeps its keys in the order of their first insertion. It is modelled as
  an association list; \<^verbatim>\<open>raw_vocab[word] += 1\<close> updates the entry of a known word in
  place and appends a new word with the count 1.
\<close>

fun count_word :: "('a \<times> nat) list \<Rightarrow> 'a \<Rightarrow> ('a \<times> nat) list" where
  "count_word [] word = [(word, 1)]"
| "count_word ((k, v) # raw_vocab) word =
     (if k = word then (k, v + 1) # raw_vocab else (k, v) # count_word raw_vocab word)"

text \<open>The three nested loops over the layers, the walks of a layer and the words of a walk.\<close>

definition count_walks :: "('a \<times> nat) list \<Rightarrow> 'a list list list \<Rightarrow> ('a \<times> nat) list" where
  "count_walks raw_vocab all_walks = foldl (foldl (foldl count_word)) raw_vocab all_walks"

text \<open>
  The loop over \<^verbatim>\<open>iteritems(raw_vocab)\<close>: every word gets its count and the provisional
  index \<^verbatim>\<open>len(index2word)\<close>, and is appended to \<^verbatim>\<open>index2word\<close>.
\<close>

fun index_words ::
  "('a \<rightharpoonup> Vocab) \<times> 'a list \<Rightarrow> ('a \<times> nat) list \<Rightarrow> ('a \<rightharpoonup> Vocab) \<times> 'a list" where
  "index_words (vocab, index2word) [] = (vocab, index2word)"
| "index_words (vocab, index2word) ((word, v) # items) =
     index_words (vocab(word \<mapsto> \<lparr>count = v, index = length index2word\<rparr>), index2word @ [word]) items"

text \<open>
  \<^verbatim>\<open>index2word.sort(key=lambda word: vocab[word].count, reverse=True)\<close>. Python computes
  the key of every element first (a KeyError of the key function propagates), and a
  reversed sort keeps the elements of equal key in their original order: it sorts the
  reversed list stably in ascending order and reverses the result. \<open>sort_key\<close> is a
  stable insertion sort.
\<close>

definition vocab_count :: "('a \<rightharpoonup> Vocab) \<Rightarrow> 'a \<Rightarrow> py_error + nat" where
  "vocab_count vocab word = (case vocab word of None \<Rightarrow> Inl KeyError | Some entry \<Rightarrow> Inr (count entry))"

fun sort_keys :: "('a \<Rightarrow> py_error + 'k) \<Rightarrow> 'a list \<Rightarrow> py_error + ('k \<times> 'a) list" where
  "sort_keys key [] = Inr []"
| "sort_keys key (x # xs) =
     and_then (key x) (\<lambda>k. and_then (sort_keys key xs) (\<lambda>kxs. Inr ((k, x) # kxs)))"

definition sort_reverse :: "('a \<Rightarrow> py_error + ('k::linorder)) \<Rightarrow> 'a list \<Rightarrow> py_error + 'a list" where
  "sort_reverse key xs =
     and_then (sort_keys key xs) (\<lambda>kxs. Inr (map snd (rev (sort_key fst (rev kxs)))))"

text \<open>The loop \<^verbatim>\<open>for i, word in enumerate(index2word): vocab[word].index = i\<close>.\<close>

fun assign_indices :: "('a \<rightharpoonup> Vocab) \<Rightarrow> nat \<Rightarrow> 'a list \<Rightarrow> py_error + ('a \<rightharpoonup> Vocab)" where
  "assign_indices vocab i [] = Inr vocab"
| "assign_indices vocab i (word # words) =
     (case vocab word of
        None \<Rightarrow> Inl KeyError
      | Some entry \<Rightarrow> assign_indices (vocab(word \<mapsto> entry\<lparr>index := i\<rparr>)) (Suc i) words)"

definition generate_vocab :: "'a list list list \<Rightarrow> py_error + ('a \<rightharpoonup> Vocab) \<times> 'a list" where
  "generate_vocab all_walks =
     (let raw_vocab = count_walks [] all_walks;
          (vocab, index2word) = index_words (Map.empty, []) raw_vocab
      in and_then (sort_reverse (vocab_count vocab) index2word) (\<lambda>index2word.
         and_then (assign_indices vocab 0 index2word) (\<lambda>vocab.
         Inr (vocab, index2word))))"

text \<open>All word occurrences of a walk collection.\<close>

definition tokens :: "'a list list list \<Rightarrow> 'a list" where
  "tokens all_walks = concat (concat all_walks)"

text \<open>The count that the association list holds for a word, 0 for an absent one.\<close>

definition counted :: "('a \<times> nat) list \<Rightarrow> 'a \<Rightarrow> nat" where
  "counted raw w = (case map_of raw w of None \<Rightarrow> 0 | Some c \<Rightarrow> c)"

text \<open>The reversed stable sort by a key function that raises nothing.\<close>

definition descending :: "('a \<Rightarrow> 'k::linorder) \<Rightarrow> 'a list \<Rightarrow> 'a list" where
  "descending f xs = map snd (rev (sort_key fst (rev (map (\<lambda>x. (f x, x)) xs))))"

section \<open>\<^verbatim>\<open>load_walks\<close> and \<^verbatim>\<open>save_walks\<close>: the persisted walk corpus\<close>

text \<open>
  A Python string is a list of characters; a character is a code point below 256. The
  walk file is its content, a string: \<^verbatim>\<open>save_walks\<close> returns the content it writes and
  \<^verbatim>\<open>load_walks\<close> takes the content it reads. Whitespace is what \<^verbatim>\<open>str.strip\<close> and
  \<^verbatim>\<open>str.split\<close> take for it among these code points: 9 to 13, 28 to 32, 133 and 160.
\<close>

definition newline :: char where
  "newline = CHR 0x0A"

definition carriage_return :: char where
  "carriage_return = CHR 0x0D"

definition is_space :: "char \<Rightarrow> bool" where
  "is_space c \<longleftrightarrow>
     (let n = (of_char c :: nat)
      in (9 \<le> n \<and> n \<le> 13) \<or> (28 \<le> n \<and> n \<le> 32) \<or> n = 133 \<or> n = 160)"

text \<open>
  \<^verbatim>\<open>line.strip()\<close>, \<^verbatim>\<open>s.split()\<close> (the words between runs of whitespace, none of
  them empty) and \<^verbatim>\<open>sep.join(xs)\<close>.
\<close>

definition strip :: "string \<Rightarrow> string" where
  "strip s = dropWhile is_space (rev (dropWhile is_space (rev s)))"

fun split_from :: "string \<Rightarrow> string \<Rightarrow> string list" where
  "split_from word [] = (if word = [] then [] else [word])"
| "split_from word (c # cs) =
     (if is_space c then (if word = [] then split_from [] cs else word # split_from [] cs)
      else split_from (word @ [c]) cs)"

definition split :: "string \<Rightarrow> string list" where
  "split s = split_from [] s"

fun join :: "string \<Rightarrow> string list \<Rightarrow> string" where
  "join sep [] = []"
| "join sep [x] = x"
| "join sep (x # y # xs) = x @ sep @ join sep (y # xs)"

text \<open>
  \<^verbatim>\<open>str(n)\<close> of a natural number, and \<^verbatim>\<open>int(s)\<close> of a string without whitespace: an
  optional sign, then decimal digits with single underscores allowed between digits;
  everything else raises ValueError. The interpreter's limit on the number of digits is
  not modelled.
\<close>

definition is_digit :: "char \<Rightarrow> bool" where
  "is_digit c \<longleftrightarrow> 48 \<le> (of_char c :: nat) \<and> (of_char c :: nat) \<le> 57"

definition digit_value :: "char \<Rightarrow> nat" where
  "digit_value c = of_char c - 48"

definition digit_char :: "nat \<Rightarrow> char" where
  "digit_char d = char_of (48 + d)"

fun str_nat :: "nat \<Rightarrow> string" where
  "str_nat n = (if n < 10 then [digit_char n] else str_nat (n div 10) @ [digit_char (n mod 10)])"

declare str_nat.simps [simp del]

fun parse_digits :: "nat \<Rightarrow> string \<Rightarrow> nat option" where
  "parse_digits acc [] = Some acc"
| "parse_digits acc (c # cs) =
     (if is_digit c then parse_digits (10 * acc + digit_value c) cs
      else if c = CHR ''_'' then
        (case cs of
           [] \<Rightarrow> None
         | d # ds \<Rightarrow> if is_digit d then parse_digits (10 * acc + digit_value d) ds else None)
      else None)"

definition parse_unsigned :: "string \<Rightarrow> nat option" where
  "parse_unsigned s =
     (case s of
        [] \<Rightarrow> None
      | c # cs \<Rightarrow> if is_digit c then parse_digits (digit_value c) cs else None)"

definition py_int :: "string \<Rightarrow> py_error + int" where
  "py_int s =
     (case s of
        [] \<Rightarrow> Inl ValueError
      | c # cs \<Rightarrow>
          if c = CHR ''-'' then
            (case parse_unsigned cs of None \<Rightarrow> Inl ValueError | Some n \<Rightarrow> Inr (- int n))
          else if c = CHR ''+'' then
            (case parse_unsigned cs of None \<Rightarrow> Inl ValueError | Some n \<Rightarrow> Inr (int n))
          else
            (case parse_unsigned s of None \<Rightarrow> Inl ValueError | Some n \<Rightarrow> Inr (int n)))"

text \<open>
  \<^verbatim>\<open>for line in f\<close> on a file opened in text mode: a line ends after a line feed, a
  carriage return or the pair of them, each read as one line feed; the last line may
  lack it.
\<close>

fun lines_from :: "string \<Rightarrow> string \<Rightarrow> string list" where
  "lines_from line [] = (if line = [] then [] else [line])"
| "lines_from line (c # cs) =
     (if c = newline then (line @ [newline]) # lines_from [] cs
      else if c = carriage_return then
        (case cs of
           [] \<Rightarrow> [line @ [newline]]
         | d # ds \<Rightarrow>
             if d = newline then (line @ [newline]) # lines_from [] ds
             else (line @ [newline]) # lines_from [] cs)
      else lines_from (line @ [c]) cs)"

definition file_lines :: "string \<Rightarrow> string list" where
  "file_lines content = lines_from [] content"

text \<open>
  The body of the loop of \<^verbatim>\<open>load_walks\<close>: \<^verbatim>\<open>content[0]\<close> raises IndexError on a
  blank line, \<^verbatim>\<open>int\<close> raises ValueError, and \<^verbatim>\<open>all_walks[layer_id]\<close> is Python's
  indexing, negative indices included.
\<close>

definition load_line :: "string list list list \<Rightarrow> string \<Rightarrow> py_error + string list list list" where
  "load_line all_walks line =
     (case split (strip line) of
        [] \<Rightarrow> Inl IndexError
      | field # walk \<Rightarrow>
          and_then (py_int field) (\<lambda>layer_id.
            let all_walks = (if layer_id \<ge> int (length all_walks) then all_walks @ [[]] else all_walks)
            in and_then (py_position (length all_walks) layer_id) (\<lambda>k.
                 Inr (all_walks[k := all_walks ! k @ [walk]]))))"

fun load_lines :: "string list list list \<Rightarrow> string list \<Rightarrow> py_error + string list list list" where
  "load_lines all_walks [] = Inr all_walks"
| "load_lines all_walks (line # lines) =
     and_then (load_line all_walks line) (\<lambda>all_walks. load_lines all_walks lines)"

definition load_walks :: "string \<Rightarrow> py_error + string list list list" where
  "load_walks walk_file = load_lines [] (file_lines walk_file)"

text \<open>
  \<^verbatim>\<open>f.write(' '.join([str(layer_id)] + [str(x) for x in walk]) + '\n')\<close>, where
  \<^verbatim>\<open>str\<close> is the identity on the words of a walk, and the two loops of
  \<^verbatim>\<open>save_walks\<close>.
\<close>

definition write_walk :: "nat \<Rightarrow> string list \<Rightarrow> string" where
  "write_walk layer_id walk = join '' '' (str_nat layer_id # walk) @ [newline]"

fun save_layers :: "nat \<Rightarrow> string list list list \<Rightarrow> string \<Rightarrow> string" where
  "save_layers layer_id [] f = f"
| "save_layers layer_id (walks # all_walks) f =
     save_layers (Suc layer_id) all_walks (foldl (\<lambda>f walk. f @ write_walk layer_id walk) f walks)"

definition save_walks :: "string list list list \<Rightarrow> string" where
  "save_walks all_walks = save_layers 0 all_walks []"

text \<open>
  A word is plain when it is not empty and holds no whitespace; a walk collection is
  storable when every layer has a walk and every word is plain.
\<close>

definition plain :: "string \<Rightarrow> bool" where
  "plain word \<longleftrightarrow> word \<noteq> [] \<and> (\<forall>c \<in> set word. \<not> is_space c)"

definition storable :: "string list list list \<Rightarrow> bool" where
  "storable all_walks \<longleftrightarrow>
     (\<forall>walks \<in> set all_walks. walks \<noteq> [] \<and> (\<forall>walk \<in> set walks. \<forall>word \<in> set walk. plain word))"

text \<open>A string without line break, and the lines that \<^verbatim>\<open>save_walks\<close> writes.\<close>

definition unbroken :: "string \<Rightarrow> bool" where
  "unbroken s \<longleftrightarrow> (\<forall>c \<in> set s. c \<noteq> newline \<and> c \<noteq> carriage_return)"

definition written_lines :: "nat \<Rightarrow> string list list list \<Rightarrow> string list" where
  "written_lines layer_id all_walks =
     concat (map (\<lambda>(k, walks). map (write_walk k) walks) (enumerate layer_id all_walks))"

section \<open>\<^verbatim>\<open>generate_neighbors\<close>: the neighbour table\<close>

text \<open>
  \<^verbatim>\<open>np.random.choice(a, size=n)\<close> draws \<open>n\<close> elements of \<open>a\<close> with replacement. The
  random source is explicit: a function \<open>rnd\<close> that gives the random number of every
  draw, and the number \<open>pos\<close> of draws made so far; draw number \<open>pos + k\<close> picks the
  element at \<open>rnd (pos + k) mod length a\<close>. Every outcome of numpy's generator is the
  outcome for some \<open>rnd\<close>, and the theorems hold for every \<open>rnd\<close>. numpy raises
  ValueError when \<open>a\<close> is empty and a sample is asked for.
\<close>

definition random_choice :: "(nat \<Rightarrow> nat) \<Rightarrow> nat \<Rightarrow> nat list \<Rightarrow> nat \<Rightarrow> py_error + nat list" where
  "random_choice rnd pos a n =
     (if a = [] \<and> 0 < n then Inl ValueError
      else Inr (map (\<lambda>k. a ! (rnd (pos + k) mod length a)) [0..<n]))"

text \<open>
  \<^verbatim>\<open>neighbors[i][r].append(v)\<close> on the table \<^verbatim>\<open>neighbors\<close>, a list of rows of lists;
  IndexError when the row or the column does not exist.
\<close>

definition append_neighbor ::
  "nat list list list \<Rightarrow> nat \<Rightarrow> nat \<Rightarrow> nat \<Rightarrow> py_error + nat list list list" where
  "append_neighbor neighbors i r v =
     (if i < length neighbors \<and> r < length (neighbors ! i)
      then Inr (neighbors[i := (neighbors ! i)[r := neighbors ! i ! r @ [v]]])
      else Inl IndexError)"

text \<open>
  The loop over the raw edges \<^verbatim>\<open>(x, y)\<close> of one edge type: both indices are looked
  up, then each is appended to the list of the other.
\<close>

fun edges_loop ::
  "('a \<rightharpoonup> Vocab) \<Rightarrow> nat \<Rightarrow> nat list list list \<Rightarrow> ('a \<times> 'a) list \<Rightarrow> py_error + nat list list list" where
  "edges_loop vocab r neighbors [] = Inr neighbors"
| "edges_loop vocab r neighbors ((x, y) # g) =
     and_then (vocab_index vocab x) (\<lambda>ix.
     and_then (vocab_index vocab y) (\<lambda>iy.
     and_then (append_neighbor neighbors ix r iy) (\<lambda>neighbors.
     and_then (append_neighbor neighbors iy r ix) (\<lambda>neighbors.
     edges_loop vocab r neighbors g))))"

text \<open>
  The three-way reconciliation of one list to \<^verbatim>\<open>neighbor_samples\<close> entries; the
  result is the new list and the new number of draws. \<^verbatim>\<open>neighbor_samples\<close> is a natural
  number.
\<close>

definition resize ::
  "(nat \<Rightarrow> nat) \<Rightarrow> nat \<Rightarrow> nat \<Rightarrow> nat list \<Rightarrow> nat \<Rightarrow> py_error + nat list \<times> nat" where
  "resize rnd pos i cell neighbor_samples =
     (if length cell = 0 then Inr (replicate neighbor_samples i, pos)
      else if length cell < neighbor_samples then
        and_then (random_choice rnd pos cell (neighbor_samples - length cell)) (\<lambda>extra.
        Inr (cell @ extra, pos + (neighbor_samples - length cell)))
      else if length cell > neighbor_samples then
        and_then (random_choice rnd pos cell neighbor_samples) (\<lambda>drawn.
        Inr (drawn, pos + neighbor_samples))
      else Inr (cell, pos))"

text \<open>The loop over \<^verbatim>\<open>range(num_nodes)\<close> that reconciles column \<open>r\<close> of every row.\<close>

fun nodes_loop ::
  "(nat \<Rightarrow> nat) \<Rightarrow> nat \<Rightarrow> nat \<Rightarrow> nat list \<Rightarrow> nat list list list \<times> nat \<Rightarrow>
   py_error + nat list list list \<times> nat" where
  "nodes_loop rnd neighbor_samples r [] (neighbors, pos) = Inr (neighbors, pos)"
| "nodes_loop rnd neighbor_samples r (i # is) (neighbors, pos) =
     (if i < length neighbors \<and> r < length (neighbors ! i)
      then and_then (resize rnd pos i (neighbors ! i ! r) neighbor_samples) (\<lambda>(cell, pos).
           nodes_loop rnd neighbor_samples r is (neighbors[i := (neighbors ! i)[r := cell]], pos))
      else Inl IndexError)"

text \<open>
  The loop over \<^verbatim>\<open>range(edge_type_count)\<close>; \<^verbatim>\<open>network_data[edge_types[r]]\<close> raises
  KeyError for an edge type without an edge list.
\<close>

fun types_loop ::
  "(nat \<Rightarrow> nat) \<Rightarrow> (string \<rightharpoonup> ('a \<times> 'a) list) \<Rightarrow> ('a \<rightharpoonup> Vocab) \<Rightarrow> nat \<Rightarrow> string list \<Rightarrow> nat \<Rightarrow>
   nat list \<Rightarrow> nat list list list \<times> nat \<Rightarrow> py_error + nat list list list \<times> nat" where
  "types_loop rnd network_data vocab num_nodes edge_types neighbor_samples [] st = Inr st"
| "types_loop rnd network_data vocab num_nodes edge_types neighbor_samples (r # rs) (neighbors, pos) =
     (case network_data (edge_types ! r) of
        None \<Rightarrow> Inl KeyError
      | Some g \<Rightarrow>
          and_then (edges_loop vocab r neighbors g) (\<lambda>neighbors.
          and_then (nodes_loop rnd neighbor_samples r [0..<num_nodes] (neighbors, pos)) (\<lambda>st.
          types_loop rnd network_data vocab num_nodes edge_types neighbor_samples rs st)))"

definition generate_neighbors ::
  "(nat \<Rightarrow> nat) \<Rightarrow> (string \<rightharpoonup> ('a \<times> 'a) list) \<Rightarrow> ('a \<rightharpoonup> Vocab) \<Rightarrow> nat \<Rightarrow> string list \<Rightarrow> nat \<Rightarrow>
   py_error + nat list list list" where
  "generate_neighbors rnd network_data vocab num_nodes edge_types neighbor_samples =
     (let edge_type_count = length edge_types;
          neighbors = replicate num_nodes (replicate edge_type_count [])
      in and_then (types_loop rnd network_data vocab num_nodes edge_types neighbor_samples
                     [0..<edge_type_count] (neighbors, 0))
           (\<lambda>(neighbors, pos). Inr neighbors))"

text \<open>
  The entries that the raw edge list of one type accumulates for the node index \<open>i\<close>:
  for each edge in order, the index of the second endpoint when the first endpoint has
  index \<open>i\<close>, then the index of the first endpoint when the second has index \<open>i\<close>.
\<close>

definition incident :: "('a \<Rightarrow> nat) \<Rightarrow> nat \<Rightarrow> 'a \<times> 'a \<Rightarrow> nat list" where
  "incident idx i edge =
     (if idx (fst edge) = i then [idx (snd edge)] else []) @
     (if idx (snd edge) = i then [idx (fst edge)] else [])"

definition accumulated :: "('a \<Rightarrow> nat) \<Rightarrow> ('a \<times> 'a) list \<Rightarrow> nat \<Rightarrow> nat list" where
  "accumulated idx g i = concat (map (incident idx i) g)"

text \<open>A network of two edge types for the examples.\<close>

definition toy_network :: "string \<rightharpoonup> (string \<times> string) list" where
  "toy_network = [''t'' \<mapsto> [(''a'', ''b''), (''a'', ''b''), (''a'', ''c''), (''a'', ''b'')],
                  ''s'' \<mapsto> [(''c'', ''c'')]]"

text \<open>
  A table has shape \<open>n\<close> by \<open>m\<close>; a cell of the table is replaced; and a list is the
  reconciliation of the accumulated list \<open>acc\<close> of node \<open>i\<close>.
\<close>

definition shape :: "nat list list list \<Rightarrow> nat \<Rightarrow> nat \<Rightarrow> bool" where
  "shape neighbors n m \<longleftrightarrow> length neighbors = n \<and> (\<forall>i < n. length (neighbors ! i) = m)"

definition set_cell :: "nat list list list \<Rightarrow> nat \<Rightarrow> nat \<Rightarrow> nat list \<Rightarrow> nat list list list" where
  "set_cell neighbors i r cell = neighbors[i := (neighbors ! i)[r := cell]]"

definition reconciled :: "nat \<Rightarrow> nat \<Rightarrow> nat list \<Rightarrow> nat list \<Rightarrow> bool" where
  "reconciled i neighbor_samples acc cell \<longleftrightarrow>
     length cell = neighbor_samples \<and>
     (acc = [] \<longrightarrow> cell = replicate neighbor_samples i) \<and>
     (acc \<noteq> [] \<and> length acc < neighbor_samples \<longrightarrow>
        take (length acc) cell = acc \<and> set (drop (length acc) cell) \<subseteq> set acc) \<and>
     (length acc = neighbor_samples \<longrightarrow> cell = acc) \<and>
     (neighbor_samples < length acc \<longrightarrow> set cell \<subseteq> set acc)"

text \<open>
  The edge list of an edge type, and the inputs on which no lookup fails: every edge
  type has an edge list, and every endpoint of every edge is in the vocabulary with an
  index below \<^verbatim>\<open>num_nodes\<close>, the number of rows of the table.
\<close>

definition edges_of :: "(string \<rightharpoonup> ('a \<times> 'a) list) \<Rightarrow> string \<Rightarrow> ('a \<times> 'a) list" where
  "edges_of network_data edge_type = (case network_data edge_type of None \<Rightarrow> [] | Some g \<Rightarrow> g)"

definition indexed_edges ::
  "(string \<rightharpoonup> ('a \<times> 'a) list) \<Rightarrow> ('a \<rightharpoonup> Vocab) \<Rightarrow> nat \<Rightarrow> string list \<Rightarrow> bool" where
  "indexed_edges network_data vocab num_nodes edge_types \<longleftrightarrow>
     (\<forall>t \<in> set edge_types. network_data t \<noteq> None \<and>
        (\<forall>e \<in> set (edges_of network_data t).
           fst e \<in> dom vocab \<and> snd e \<in> dom vocab \<and>
           index_of vocab (fst e) < num_nodes \<and> index_of vocab (snd e) < num_nodes))"

section \<open>\<^verbatim>\<open>get_score\<close> and \<^verbatim>\<open>evaluate\<close>: scoring held-out edges\<close>

text \<open>
  The embedding lookup \<^verbatim>\<open>local_model\<close> is a dictionary from node to vector. The
  arithmetic of \<^verbatim>\<open>get_score\<close> (numpy's dot product and norms, on floats) is the
  parameter \<open>cosine\<close>; it returns \<open>None\<close> where numpy raises. The
  \<^verbatim>\<open>try\<close>/\<^verbatim>\<open>except Exception: pass\<close> turns a missing key and every other
  exception into the result \<^verbatim>\<open>None\<close>. Dividing by a norm that is 0 raises nothing in
  numpy: the score is then NaN, and NaN is not \<^verbatim>\<open>None\<close>.
\<close>

definition get_score ::
  "('v \<Rightarrow> 'v \<Rightarrow> 's option) \<Rightarrow> (string \<rightharpoonup> 'v) \<Rightarrow> string \<Rightarrow> string \<Rightarrow> 's option" where
  "get_score cosine local_model node1 node2 =
     (case local_model node1 of
        None \<Rightarrow> None
      | Some vector1 \<Rightarrow>
          (case local_model node2 of
             None \<Rightarrow> None
           | Some vector2 \<Rightarrow> cosine vector1 vector2))"

text \<open>
  The three accumulators of \<^verbatim>\<open>evaluate\<close>, and its two loops: over the true edges
  (label 1, counted in \<^verbatim>\<open>true_num\<close>) and over the false edges (label 0).
\<close>

record 's scored =
  true_list :: "nat list"
  prediction_list :: "'s list"
  true_num :: nat

fun score_true_edges ::
  "('v \<Rightarrow> 'v \<Rightarrow> 's option) \<Rightarrow> (string \<rightharpoonup> 'v) \<Rightarrow> 's scored \<Rightarrow> (string \<times> string) list \<Rightarrow> 's scored" where
  "score_true_edges cosine model st [] = st"
| "score_true_edges cosine model st (edge # edges) =
     score_true_edges cosine model
       (case get_score cosine model (fst edge) (snd edge) of
          None \<Rightarrow> st
        | Some tmp_score \<Rightarrow>
            st\<lparr>true_list := true_list st @ [1],
               prediction_list := prediction_list st @ [tmp_score],
               true_num := true_num st + 1\<rparr>)
       edges"

fun score_false_edges ::
  "('v \<Rightarrow> 'v \<Rightarrow> 's option) \<Rightarrow> (string \<rightharpoonup> 'v) \<Rightarrow> 's scored \<Rightarrow> (string \<times> string) list \<Rightarrow> 's scored" where
  "score_false_edges cosine model st [] = st"
| "score_false_edges cosine model st (edge # edges) =
     score_false_edges cosine model
       (case get_score cosine model (fst edge) (snd edge) of
          None \<Rightarrow> st
        | Some tmp_score \<Rightarrow>
            st\<lparr>true_list := true_list st @ [0],
               prediction_list := prediction_list st @ [tmp_score]\<rparr>)
       edges"

definition score_edges ::
  "('v \<Rightarrow> 'v \<Rightarrow> 's option) \<Rightarrow> (string \<rightharpoonup> 'v) \<Rightarrow> (string \<times> string) list \<Rightarrow> (string \<times> string) list \<Rightarrow> 's scored" where
  "score_edges cosine model true_edges false_edges =
     score_false_edges cosine model
       (score_true_edges cosine model
          \<lparr>true_list = [], prediction_list = [], true_num = 0\<rparr> true_edges)
       false_edges"

text \<open>
  A score is a float: NaN, or a number. The numbers are the values of a linear order
  \<open>'s\<close>: the finite floats and the two infinities, with \<^verbatim>\<open>-0.0\<close> and \<^verbatim>\<open>0.0\<close> as one
  number. The comparisons \<^verbatim>\<open><\<close> and \<^verbatim>\<open>>=\<close> are false as soon as one side is NaN.
\<close>

datatype 's py_float = NaN | Num 's

fun float_lt :: "('s::linorder) py_float \<Rightarrow> 's py_float \<Rightarrow> bool" where
  "float_lt (Num a) (Num b) \<longleftrightarrow> a < b"
| "float_lt a b \<longleftrightarrow> False"

fun float_ge :: "('s::linorder) py_float \<Rightarrow> 's py_float \<Rightarrow> bool" where
  "float_ge (Num a) (Num b) \<longleftrightarrow> a \<ge> b"
| "float_ge a b \<longleftrightarrow> False"

text \<open>
  \<^verbatim>\<open>sorted_pred.sort()\<close> is the \<^verbatim>\<open>list.sort\<close> of CPython, which compares two items
  with \<^verbatim>\<open><\<close> and with nothing else. It is embedded as \<^verbatim>\<open>listsort\<close> of CPython 3.7
  runs on a list of fewer than 64 items. \<^verbatim>\<open>count_run\<close> finds the run at the start of
  the list: when the second item is less than the first, the run goes on for as long as
  each item is less than the one before it, and it is reversed in place; otherwise the
  run goes on for as long as no item is less than the one before it. \<^verbatim>\<open>binarysort\<close>
  then moves each further item into the run, to the position at which a binary search
  for it ends.

  On a longer list CPython sorts stretches of the list in this way and merges them, and
  later versions of CPython find the run in another way. Where no item is NaN,
  \<^verbatim>\<open><\<close> is a linear order and the outcome is the sorted list in all of them; a list
  in which no item is less than the one before it is one run, and all of them leave it
  as it is. On other lists with a NaN the outcome depends on the comparisons made; the
  functions below make those of the short list of version 3.7, whatever the length.
\<close>

fun run_end :: "bool \<Rightarrow> ('s::linorder) py_float \<Rightarrow> 's py_float list \<Rightarrow> nat" where
  "run_end is_descending previous [] = 0"
| "run_end is_descending previous (x # xs) =
     (if float_lt x previous = is_descending then Suc (run_end is_descending x xs) else 0)"

definition count_run :: "('s::linorder) py_float list \<Rightarrow> nat \<times> bool" where
  "count_run lo =
     (case lo of
        [] \<Rightarrow> (0, False)
      | [x] \<Rightarrow> (1, False)
      | x # y # rest \<Rightarrow> (2 + run_end (float_lt y x) y rest, float_lt y x))"

function binary_search :: "('s::linorder) py_float list \<Rightarrow> 's py_float \<Rightarrow> nat \<Rightarrow> nat \<Rightarrow> nat" where
  "binary_search keys pivot l r =
     (if l < r then
        (let p = l + (r - l) div 2
         in if float_lt pivot (keys ! p) then binary_search keys pivot l p
            else binary_search keys pivot (p + 1) r)
      else l)"
  by pat_completeness auto
termination
  by (relation "measure (\<lambda>(keys, pivot, l, r). r - l)") auto

declare binary_search.simps [simp del]

fun binarysort :: "('s::linorder) py_float list \<Rightarrow> 's py_float list \<Rightarrow> 's py_float list" where
  "binarysort run [] = run"
| "binarysort run (pivot # rest) =
     (let l = binary_search run pivot 0 (length run)
      in binarysort (take l run @ pivot # drop l run) rest)"

definition list_sort :: "('s::linorder) py_float list \<Rightarrow> 's py_float list" where
  "list_sort xs =
     (let (n, is_descending) = count_run xs;
          run = take n xs
      in binarysort (if is_descending then rev run else run) (drop n xs))"

text \<open>
  \<^verbatim>\<open>sorted_pred = prediction_list[:]; sorted_pred.sort(); threshold = sorted_pred[-true_num]\<close>.
  Python's index \<^verbatim>\<open>-true_num\<close> is \<^verbatim>\<open>0\<close> when \<^verbatim>\<open>true_num\<close> is 0.
\<close>

definition rank_threshold :: "('s::linorder) py_float scored \<Rightarrow> py_error + 's py_float" where
  "rank_threshold st = py_getitem (list_sort (prediction_list st)) (- int (true_num st))"

text \<open>
  \<^verbatim>\<open>y_pred = np.zeros(len(prediction_list))\<close>, then the loop over
  \<^verbatim>\<open>range(len(prediction_list))\<close> that sets \<^verbatim>\<open>y_pred[i] = 1\<close> where
  \<^verbatim>\<open>prediction_list[i] >= threshold\<close>.
\<close>

fun mark_predictions ::
  "('s::linorder) py_float list \<Rightarrow> 's py_float \<Rightarrow> nat list \<Rightarrow> nat list \<Rightarrow> nat list" where
  "mark_predictions scores threshold y_pred [] = y_pred"
| "mark_predictions scores threshold y_pred (i # is) =
     mark_predictions scores threshold
       (if float_ge (scores ! i) threshold then y_pred[i := 1] else y_pred) is"

definition predict :: "('s::linorder) py_float list \<Rightarrow> 's py_float \<Rightarrow> nat list" where
  "predict scores threshold =
     mark_predictions scores threshold (replicate (length scores) 0) [0..<length scores]"

text \<open>
  \<^verbatim>\<open>evaluate\<close>. The scikit-learn metrics computed at the end from \<^verbatim>\<open>y_true\<close>,
  \<^verbatim>\<open>y_scores\<close> and \<^verbatim>\<open>y_pred\<close> are the parameter \<open>metrics\<close>; it returns an error
  where scikit-learn raises.
\<close>

definition evaluate ::
  "('v \<Rightarrow> 'v \<Rightarrow> ('s::linorder) py_float option) \<Rightarrow>
   (nat list \<Rightarrow> 's py_float list \<Rightarrow> nat list \<Rightarrow> py_error + 'r) \<Rightarrow>
   (string \<rightharpoonup> 'v) \<Rightarrow> (string \<times> string) list \<Rightarrow> (string \<times> string) list \<Rightarrow> py_error + 'r" where
  "evaluate cosine metrics model true_edges false_edges =
     (let st = score_edges cosine model true_edges false_edges
      in and_then (rank_threshold st)
           (\<lambda>threshold. metrics (true_list st) (prediction_list st)
                           (predict (prediction_list st) threshold)))"

text \<open>An edge is scoreable when both of its nodes are in the lookup.\<close>

definition scoreable :: "(string \<rightharpoonup> 'v) \<Rightarrow> string \<times> string \<Rightarrow> bool" where
  "scoreable model edge \<longleftrightarrow> model (fst edge) \<noteq> None \<and> model (snd edge) \<noteq> None"

text \<open>The scores that \<^verbatim>\<open>get_score\<close> yields along an edge list, in order.\<close>

definition edge_scores ::
  "('v \<Rightarrow> 'v \<Rightarrow> 's option) \<Rightarrow> (string \<rightharpoonup> 'v) \<Rightarrow> (string \<times> string) list \<Rightarrow> 's list" where
  "edge_scores cosine model edges =
     List.map_filter (\<lambda>edge. get_score cosine model (fst edge) (snd edge)) edges"

text \<open>The numbers among the scores of a list, in order.\<close>

definition numbers :: "'s py_float list \<Rightarrow> 's list" where
  "numbers xs = List.map_filter (\<lambda>x. case x of NaN \<Rightarrow> None | Num a \<Rightarrow> Some a) xs"

text \<open>
  The example of the specification: true edges scoring 0.9 and 0.7, false edges scoring
  0.8, 0.6 and 0.5. A node stands for its vector by the number that is its score with
  node \<open>u\<close>, whose number is 1, and the score of two nodes is the product of their
  numbers; node \<open>z\<close> has the zero vector, of norm 0, with which every score is NaN.
\<close>

definition example_model :: "string \<rightharpoonup> real" where
  "example_model =
     [''u'' \<mapsto> 1, ''a'' \<mapsto> 0.9, ''b'' \<mapsto> 0.7, ''c'' \<mapsto> 0.8, ''d'' \<mapsto> 0.6, ''e'' \<mapsto> 0.5, ''z'' \<mapsto> 0]"

definition example_cosine :: "real \<Rightarrow> real \<Rightarrow> real py_float option" where
  "example_cosine x y = Some (if x = 0 \<or> y = 0 then NaN else Num (x * y))"

chapter \<open>Properties\<close>

section \<open>The adjacency structure\<close>

lemma add_neighbor_apply:
  "add_neighbor d u v w =
     (if w = u then Some (insert v (case d u of None \<Rightarrow> {} | Some s \<Rightarrow> s)) else d w)"
  by (simp add: add_neighbor_def)

lemma neighbours_of_none: "w \<notin> endpoints edges \<Longrightarrow> neighbours_of edges w = {}"
  by (force simp: endpoints_def neighbours_of_def)

lemma add_edges_apply:
  "add_edges d edges w =
     (if w \<in> endpoints edges
      then Some ((case d w of None \<Rightarrow> {} | Some s \<Rightarrow> s) \<union> neighbours_of edges w)
      else d w)"
proof (induction d edges rule: add_edges.induct)
  case (1 d)
  then show ?case by (simp add: endpoints_def)
next
  case (2 d u v edges)
  have ep: "w \<in> endpoints ((u, v) # edges) \<longleftrightarrow> w = u \<or> w = v \<or> w \<in> endpoints edges"
    by (auto simp: endpoints_def)
  have nb: "neighbours_of ((u, v) # edges) w =
      (if w = u then {v} else {}) \<union> (if w = v then {u} else {}) \<union> neighbours_of edges w"
    by (auto simp: neighbours_of_def)
  let ?d = "add_neighbor (add_neighbor d u v) v u"
  have dw: "(case ?d w of None \<Rightarrow> {} | Some s \<Rightarrow> s) =
     (case d w of None \<Rightarrow> {} | Some s \<Rightarrow> s) \<union> (if w = u then {v} else {}) \<union> (if w = v then {u} else {})"
    by (auto simp: add_neighbor_apply split: option.splits)
  have dn: "w \<noteq> u \<Longrightarrow> w \<noteq> v \<Longrightarrow> ?d w = d w"
    by (simp add: add_neighbor_apply)
  have ds: "w = u \<or> w = v \<Longrightarrow> ?d w = Some (case ?d w of None \<Rightarrow> {} | Some s \<Rightarrow> s)"
    by (auto simp: add_neighbor_apply)
  show ?case
  proof (cases "w \<in> endpoints edges")
    case True
    then show ?thesis
      unfolding add_edges.simps "2.IH" ep nb dw by (simp add: Un_ac)
  next
    case False
    show ?thesis
    proof (cases "w = u \<or> w = v")
      case True
      have "add_edges d ((u, v) # edges) w = ?d w"
        using False by (simp add: "2.IH")
      also have "\<dots> = Some (case ?d w of None \<Rightarrow> {} | Some s \<Rightarrow> s)"
        using ds True by blast
      finally show ?thesis
        unfolding ep nb dw using True False by (simp add: neighbours_of_none Un_ac)
    next
      case F2: False
      then show ?thesis using False dn by (simp add: "2.IH" ep)
    qed
  qed
qed

lemma get_G_from_edges_apply:
  "get_G_from_edges edges w =
     (if w \<in> endpoints edges then Some (neighbours_of edges w) else None)"
  by (simp add: get_G_from_edges_def add_edges_apply)

lemma edge_endpoints:
  assumes "(u, v) \<in> set edges"
  shows "u \<in> endpoints edges" and "v \<in> endpoints edges"
proof -
  from assms have "fst (u, v) \<in> fst ` set edges" and "snd (u, v) \<in> snd ` set edges"
    by (rule imageI)+
  then show "u \<in> endpoints edges" and "v \<in> endpoints edges"
    by (simp_all add: endpoints_def)
qed

lemma edge_neighbours:
  assumes "(u, v) \<in> set edges"
  shows "v \<in> neighbours_of edges u" and "u \<in> neighbours_of edges v"
  using assms by (simp_all add: neighbours_of_def)

lemma get_G_from_edges_set:
  assumes "set edges = set edges'"
  shows "get_G_from_edges edges = get_G_from_edges edges'"
proof
  fix w
  show "get_G_from_edges edges w = get_G_from_edges edges' w"
    unfolding get_G_from_edges_apply endpoints_def neighbours_of_def assms ..
qed

text \<open>
  Claim C9. For every input edge sequence the adjacency mapping returned by
  \<open>get_G_from_edges\<close> records, for every input pair \<open>(u, v)\<close>, \<open>v\<close> as a member of the
  set of \<open>u\<close> and \<open>u\<close> as a member of the set of \<open>v\<close>. Duplicate occurrences of a pair
  collapse: the mapping depends on the set of input pairs only, so adding a pair that is
  already present changes nothing. A self-loop \<open>(u, u)\<close> is accepted and records \<open>u\<close> as
  its own neighbour.
\<close>

theorem get_G_from_edges_symmetric:
  "(\<forall>(u, v) \<in> set edges.
      (\<exists>su. get_G_from_edges edges u = Some su \<and> v \<in> su) \<and>
      (\<exists>sv. get_G_from_edges edges v = Some sv \<and> u \<in> sv)) \<and>
   (\<forall>e \<in> set edges. get_G_from_edges (e # edges) = get_G_from_edges edges \<and>
      get_G_from_edges (edges @ [e]) = get_G_from_edges edges) \<and>
   (\<forall>u. (u, u) \<in> set edges \<longrightarrow>
      (\<exists>su. get_G_from_edges edges u = Some su \<and> u \<in> su))"
proof (intro conjI ballI allI impI)
  fix e assume mem: "e \<in> set edges"
  obtain u v where e: "e = (u, v)"
    by (cases e)
  from mem have uv: "(u, v) \<in> set edges"
    by (simp only: e)
  show "case e of (u, v) \<Rightarrow>
      (\<exists>su. get_G_from_edges edges u = Some su \<and> v \<in> su) \<and>
      (\<exists>sv. get_G_from_edges edges v = Some sv \<and> u \<in> sv)"
    unfolding e using edge_endpoints [OF uv] edge_neighbours [OF uv]
    by (simp add: get_G_from_edges_apply)
next
  fix e assume "e \<in> set edges"
  then have "set (e # edges) = set edges"
    by auto
  then show "get_G_from_edges (e # edges) = get_G_from_edges edges"
    by (rule get_G_from_edges_set)
next
  fix e assume "e \<in> set edges"
  then have "set (edges @ [e]) = set edges"
    by auto
  then show "get_G_from_edges (edges @ [e]) = get_G_from_edges edges"
    by (rule get_G_from_edges_set)
next
  fix u assume uu: "(u, u) \<in> set edges"
  show "\<exists>su. get_G_from_edges edges u = Some su \<and> u \<in> su"
    using edge_endpoints [OF uu] edge_neighbours [OF uu]
    by (simp add: get_G_from_edges_apply)
qed

theorem get_G_from_edges_symmetric_witness:
  "get_G_from_edges [(''a'', ''b''), (''a'', ''b''), (''c'', ''c'')] ''a'' = Some {''b''} \<and>
   get_G_from_edges [(''a'', ''b''), (''a'', ''b''), (''c'', ''c'')] ''b'' = Some {''a''} \<and>
   get_G_from_edges [(''a'', ''b''), (''a'', ''b''), (''c'', ''c'')] ''c'' = Some {''c''} \<and>
   get_G_from_edges [(''a'', ''b''), (''a'', ''b''), (''c'', ''c'')] =
     get_G_from_edges [(''a'', ''b''), (''c'', ''c'')]"
  using get_G_from_edges_symmetric [of "[(''a'', ''b''), (''a'', ''b''), (''c'', ''c'')]"]
  by (simp add: get_G_from_edges_def add_neighbor_def)

section \<open>The vocabulary\<close>

lemma vocab_index_known:
  "word \<in> dom vocab \<Longrightarrow> vocab_index vocab word = Inr (index_of vocab word)"
  by (auto simp: vocab_index_def index_of_def)

lemma count_word_keys: "fst ` set (count_word raw word) = insert word (fst ` set raw)"
  by (induction raw word rule: count_word.induct) auto

lemma count_word_distinct:
  "distinct (map fst raw) \<Longrightarrow> distinct (map fst (count_word raw word))"
proof (induction raw word rule: count_word.induct)
  case (1 word)
  show ?case by simp
next
  case (2 k v raw word)
  have "k \<noteq> word \<Longrightarrow> k \<notin> fst ` set (count_word raw word)"
    using "2.prems" by (simp add: count_word_keys)
  then show ?case
    using 2 by auto
qed

lemma count_word_map_of:
  "map_of (count_word raw word) w =
     (if w = word then Some (case map_of raw word of None \<Rightarrow> 1 | Some c \<Rightarrow> c + 1)
      else map_of raw w)"
  by (induction raw word rule: count_word.induct) auto

lemma counted_count_word:
  "counted (count_word raw word) w = counted raw w + (if w = word then 1 else 0)"
  by (simp add: counted_def count_word_map_of split: option.splits)

lemma count_words_facts:
  "fst ` set (foldl count_word raw ws) = fst ` set raw \<union> set ws"
  "distinct (map fst raw) \<Longrightarrow> distinct (map fst (foldl count_word raw ws))"
  "counted (foldl count_word raw ws) w = counted raw w + count_list ws w"
proof (induction ws arbitrary: raw)
  case Nil
  {
    case 1 show ?case by simp
  next
    case 2 then show ?case by simp
  next
    case 3 show ?case by simp
  }
next
  case (Cons x ws)
  {
    case 1 show ?case
      by (simp add: Cons.IH(1) count_word_keys)
  next
    case 2 then show ?case
      by (simp add: Cons.IH(2) count_word_distinct)
  next
    case 3 show ?case
      by (simp add: Cons.IH(3) counted_count_word)
  }
qed

lemma foldl_foldl_concat: "foldl (foldl f) a xss = foldl f a (concat xss)"
  by (induction xss arbitrary: a) simp_all

lemma count_walks_tokens: "count_walks raw all_walks = foldl count_word raw (tokens all_walks)"
  by (simp add: count_walks_def tokens_def foldl_foldl_concat)

lemma count_list_zero: "w \<notin> set ws \<Longrightarrow> count_list ws w = 0"
  by (induction ws) auto

lemma count_list_pos: "w \<in> set ws \<Longrightarrow> 0 < count_list ws w"
  by (induction ws) auto

lemma raw_vocab_facts:
  "fst ` set (count_walks [] all_walks) = set (tokens all_walks)"
  "distinct (map fst (count_walks [] all_walks))"
  "w \<in> set (tokens all_walks) \<Longrightarrow>
     map_of (count_walks [] all_walks) w = Some (count_list (tokens all_walks) w)"
proof -
  show k: "fst ` set (count_walks [] all_walks) = set (tokens all_walks)"
    by (simp add: count_walks_tokens count_words_facts(1))
  show "distinct (map fst (count_walks [] all_walks))"
    by (simp add: count_walks_tokens count_words_facts(2))
  assume w: "w \<in> set (tokens all_walks)"
  then have "w \<in> fst ` set (count_walks [] all_walks)"
    by (simp only: k)
  then obtain c where c: "map_of (count_walks [] all_walks) w = Some c"
    by (metis domD dom_map_of_conv_image_fst)
  have "counted [] w = 0"
    by (simp add: counted_def)
  then have "counted (count_walks [] all_walks) w = count_list (tokens all_walks) w"
    by (simp add: count_walks_tokens count_words_facts(3))
  then show "map_of (count_walks [] all_walks) w = Some (count_list (tokens all_walks) w)"
    using c by (simp add: counted_def)
qed

lemma index_words_eq:
  assumes "distinct (map fst items)"
  shows "\<exists>vocab'. index_words (vocab, index2word) items = (vocab', index2word @ map fst items) \<and>
      (\<forall>w. w \<notin> fst ` set items \<longrightarrow> vocab' w = vocab w) \<and>
      (\<forall>w c. (w, c) \<in> set items \<longrightarrow> (\<exists>e. vocab' w = Some e \<and> count e = c))"
  using assms
proof (induction items arbitrary: vocab index2word)
  case Nil
  show ?case by simp
next
  case (Cons item items)
  obtain word v where item: "item = (word, v)"
    by (cases item)
  have d: "distinct (map fst items)" and fresh: "word \<notin> fst ` set items"
    using Cons.prems by (simp_all add: item)
  let ?vocab = "vocab(word \<mapsto> \<lparr>count = v, index = length index2word\<rparr>)"
  from Cons.IH [OF d, of ?vocab "index2word @ [word]"]
  obtain vocab' where r: "index_words (?vocab, index2word @ [word]) items =
        (vocab', (index2word @ [word]) @ map fst items)"
    and keep: "\<forall>w. w \<notin> fst ` set items \<longrightarrow> vocab' w = ?vocab w"
    and new: "\<forall>w c. (w, c) \<in> set items \<longrightarrow> (\<exists>e. vocab' w = Some e \<and> count e = c)"
    by blast
  have 1: "index_words (vocab, index2word) (item # items) =
      (vocab', index2word @ map fst (item # items))"
    using r by (simp add: item)
  have 2: "\<forall>w. w \<notin> fst ` set (item # items) \<longrightarrow> vocab' w = vocab w"
    using keep by (simp add: item)
  have "vocab' word = Some \<lparr>count = v, index = length index2word\<rparr>"
    using keep fresh by simp
  then have 3: "\<forall>w c. (w, c) \<in> set (item # items) \<longrightarrow> (\<exists>e. vocab' w = Some e \<and> count e = c)"
    using new by (auto simp: item)
  from 1 2 3 show ?case by blast
qed

lemma sort_keys_total:
  assumes "\<forall>x \<in> set xs. key x = Inr (f x)"
  shows "sort_keys key xs = Inr (map (\<lambda>x. (f x, x)) xs)"
  using assms by (induction xs) simp_all

lemma sort_reverse_total:
  assumes "\<forall>x \<in> set xs. key x = Inr (f x)"
  shows "sort_reverse key xs = Inr (descending f xs)"
  by (simp add: sort_reverse_def sort_keys_total [OF assms] descending_def)

lemma descending_facts:
  "set (descending f xs) = set xs"
  "length (descending f xs) = length xs"
  "distinct xs \<Longrightarrow> distinct (descending f xs)"
  "sorted (rev (map f (descending f xs)))"
proof -
  let ?g = "\<lambda>x. (f x, x)"
  let ?ps = "sort_key fst (rev (map ?g xs))"
  have d: "descending f xs = rev (map snd ?ps)"
    by (simp add: descending_def rev_map)
  have set_ps: "set ?ps = ?g ` set xs"
    by simp
  show "set (descending f xs) = set xs"
    unfolding d by (simp add: image_image)
  show "length (descending f xs) = length xs"
    unfolding d by simp
  have key: "\<forall>p \<in> set ?ps. fst p = f (snd p)"
    unfolding set_ps by simp
  then have "map fst ?ps = map f (map snd ?ps)"
    by simp
  moreover have "sorted (map fst ?ps)"
    by (rule sorted_sort_key)
  ultimately have "sorted (map f (map snd ?ps))"
    by (simp only:)
  moreover have "rev (map f (descending f xs)) = map f (map snd ?ps)"
    unfolding d by (simp only: rev_map rev_rev_ident)
  ultimately show "sorted (rev (map f (descending f xs)))"
    by (simp only:)
  assume "distinct xs"
  then have "distinct (map ?g xs)"
    by (simp add: distinct_map inj_on_def)
  then have "distinct ?ps"
    by simp
  moreover have "inj_on snd (set ?ps)"
    unfolding set_ps by (auto simp: inj_on_def)
  ultimately show "distinct (descending f xs)"
    unfolding d by (simp add: distinct_map)
qed

lemma descending_nth_mono:
  assumes "i \<le> j" and "j < length xs"
  shows "f (descending f xs ! j) \<le> f (descending f xs ! i)"
proof -
  let ?ys = "descending f xs"
  have len: "length ?ys = length xs"
    by (rule descending_facts(2))
  have s: "sorted (rev (map f ?ys))"
    by (rule descending_facts(4))
  have "rev (map f ?ys) ! (length xs - Suc j) \<le> rev (map f ?ys) ! (length xs - Suc i)"
    using s by (rule sorted_nth_mono) (use assms len in simp_all)
  then show ?thesis
    using assms len by (simp add: rev_nth)
qed

lemma assign_indices_eq:
  assumes "distinct words" and "set words \<subseteq> dom vocab"
  shows "\<exists>vocab'. assign_indices vocab i words = Inr vocab' \<and>
      (\<forall>w. w \<notin> set words \<longrightarrow> vocab' w = vocab w) \<and>
      (\<forall>k < length words.
         vocab' (words ! k) = Some ((the (vocab (words ! k)))\<lparr>index := i + k\<rparr>))"
  using assms
proof (induction words arbitrary: vocab i)
  case Nil
  show ?case by simp
next
  case (Cons word words)
  obtain entry where entry: "vocab word = Some entry"
    using Cons.prems(2) by auto
  let ?vocab = "vocab(word \<mapsto> entry\<lparr>index := i\<rparr>)"
  have d: "distinct words" and fresh: "word \<notin> set words"
    using Cons.prems(1) by simp_all
  have sub: "set words \<subseteq> dom ?vocab"
    using Cons.prems(2) by auto
  from Cons.IH [OF d sub, of "Suc i"]
  obtain vocab' where r: "assign_indices ?vocab (Suc i) words = Inr vocab'"
    and keep: "\<forall>w. w \<notin> set words \<longrightarrow> vocab' w = ?vocab w"
    and new: "\<forall>k < length words.
         vocab' (words ! k) = Some ((the (?vocab (words ! k)))\<lparr>index := Suc i + k\<rparr>)"
    by blast
  have 1: "assign_indices vocab i (word # words) = Inr vocab'"
    using r by (simp add: entry)
  have 2: "\<forall>w. w \<notin> set (word # words) \<longrightarrow> vocab' w = vocab w"
    using keep by simp
  have 3: "\<forall>k < length (word # words).
      vocab' ((word # words) ! k) = Some ((the (vocab ((word # words) ! k)))\<lparr>index := i + k\<rparr>)"
  proof (intro allI impI)
    fix k assume k: "k < length (word # words)"
    show "vocab' ((word # words) ! k) = Some ((the (vocab ((word # words) ! k)))\<lparr>index := i + k\<rparr>)"
    proof (cases k)
      case 0
      then show ?thesis
        using keep fresh by (simp add: entry)
    next
      case (Suc k')
      then have k': "k' < length words"
        using k by simp
      then have "words ! k' \<noteq> word"
        using fresh by (metis nth_mem)
      then show ?thesis
        using new k' by (simp add: Suc)
    qed
  qed
  from 1 2 3 show ?case by blast
qed

lemma generate_vocab_result:
  "\<exists>vocab index2word.
      generate_vocab all_walks = Inr (vocab, index2word) \<and>
      distinct index2word \<and> set index2word = set (tokens all_walks) \<and>
      (\<forall>w. w \<notin> set (tokens all_walks) \<longrightarrow> vocab w = None) \<and>
      (\<forall>k < length index2word. \<exists>e. vocab (index2word ! k) = Some e \<and> index e = k \<and>
          count e = count_list (tokens all_walks) (index2word ! k)) \<and>
      (\<forall>i j. i \<le> j \<and> j < length index2word \<longrightarrow>
          count_list (tokens all_walks) (index2word ! j)
            \<le> count_list (tokens all_walks) (index2word ! i))"
proof -
  let ?T = "tokens all_walks"
  let ?raw = "count_walks [] all_walks"
  let ?found = "map fst ?raw"
  have keys: "set ?found = set ?T"
    using raw_vocab_facts(1) [of all_walks] by simp
  have dist: "distinct ?found"
    by (rule raw_vocab_facts(2))
  from index_words_eq [OF dist, of Map.empty "[]"]
  obtain v1 where iw: "index_words (Map.empty, []) ?raw = (v1, ?found)"
    and v1_none: "\<forall>w. w \<notin> fst ` set ?raw \<longrightarrow> v1 w = None"
    and v1_some: "\<forall>w c. (w, c) \<in> set ?raw \<longrightarrow> (\<exists>e. v1 w = Some e \<and> count e = c)"
    by auto
  have v1_tok: "\<exists>e. v1 w = Some e \<and> count e = count_list ?T w" if "w \<in> set ?T" for w
  proof -
    have "map_of ?raw w = Some (count_list ?T w)"
      using that by (rule raw_vocab_facts(3))
    then have "(w, count_list ?T w) \<in> set ?raw"
      by (rule map_of_SomeD)
    then show ?thesis
      using v1_some by blast
  qed
  have cnt: "count_of v1 w = count_list ?T w" if "w \<in> set ?T" for w
    using v1_tok [OF that] by (auto simp: count_of_def)
  have "\<forall>x \<in> set ?found. vocab_count v1 x = Inr (count_of v1 x)"
  proof
    fix x assume "x \<in> set ?found"
    then have "x \<in> set ?T"
      by (simp only: keys)
    from v1_tok [OF this] show "vocab_count v1 x = Inr (count_of v1 x)"
      by (auto simp: vocab_count_def count_of_def)
  qed
  then have sr: "sort_reverse (vocab_count v1) ?found = Inr (descending (count_of v1) ?found)"
    by (rule sort_reverse_total)
  let ?order = "descending (count_of v1) ?found"
  have w_set: "set ?order = set ?T"
    by (simp only: descending_facts(1) keys)
  have w_dist: "distinct ?order"
    using dist by (rule descending_facts(3))
  have w_len: "length ?order = length ?found"
    by (rule descending_facts(2))
  have "set ?order \<subseteq> dom v1"
  proof
    fix x assume "x \<in> set ?order"
    then have "x \<in> set ?T"
      by (simp only: w_set)
    from v1_tok [OF this] show "x \<in> dom v1"
      by auto
  qed
  from assign_indices_eq [OF w_dist this, of 0]
  obtain v2 where ai: "assign_indices v1 0 ?order = Inr v2"
    and v2_keep: "\<forall>x. x \<notin> set ?order \<longrightarrow> v2 x = v1 x"
    and v2_new: "\<forall>k < length ?order. v2 (?order ! k) = Some ((the (v1 (?order ! k)))\<lparr>index := k\<rparr>)"
    by auto
  have gv: "generate_vocab all_walks = Inr (v2, ?order)"
    by (simp add: generate_vocab_def Let_def iw sr ai)
  have none: "\<forall>x. x \<notin> set ?T \<longrightarrow> v2 x = None"
  proof (intro allI impI)
    fix x assume x: "x \<notin> set ?T"
    then have "x \<notin> set ?order" and "x \<notin> fst ` set ?raw"
      using w_set keys by simp_all
    then show "v2 x = None"
      using v2_keep v1_none by simp
  qed
  have some: "\<forall>k < length ?order. \<exists>e. v2 (?order ! k) = Some e \<and> index e = k \<and>
      count e = count_list ?T (?order ! k)"
  proof (intro allI impI)
    fix k assume k: "k < length ?order"
    then have "?order ! k \<in> set ?T"
      using w_set nth_mem by blast
    from v1_tok [OF this] obtain e where e: "v1 (?order ! k) = Some e"
      "count e = count_list ?T (?order ! k)"
      by blast
    have "v2 (?order ! k) = Some (e\<lparr>index := k\<rparr>)"
      using v2_new k e(1) by simp
    then show "\<exists>e. v2 (?order ! k) = Some e \<and> index e = k \<and> count e = count_list ?T (?order ! k)"
      using e(2) by simp
  qed
  have mono: "\<forall>i j. i \<le> j \<and> j < length ?order \<longrightarrow>
      count_list ?T (?order ! j) \<le> count_list ?T (?order ! i)"
  proof (intro allI impI)
    fix i j assume ij: "i \<le> j \<and> j < length ?order"
    then have j: "j < length ?found" and i: "i < length ?order"
      using w_len by simp_all
    have m: "count_of v1 (?order ! j) \<le> count_of v1 (?order ! i)"
      using ij j by (intro descending_nth_mono) simp_all
    have "?order ! j \<in> set ?T" "?order ! i \<in> set ?T"
      using ij i w_set nth_mem by blast+
    then show "count_list ?T (?order ! j) \<le> count_list ?T (?order ! i)"
      using m by (simp add: cnt)
  qed
  from gv w_dist w_set none some mono show ?thesis
    by blast
qed

text \<open>
  Claim C4. For every walk collection \<^verbatim>\<open>generate_vocab\<close> returns a vocabulary and a
  list \<open>index2word\<close> such that the words of the vocabulary are exactly the words that
  occur in some walk, the count of a word is the number of its occurrences in all walks
  of all layers, the indices are a bijection from the words onto \<open>{0..<|V|}\<close>, a word
  with a larger count has a smaller index, and \<open>index2word\<close> is the inverse of the index
  assignment.
\<close>

theorem generate_vocab_indices:
  "\<exists>vocab index2word.
      generate_vocab all_walks = Inr (vocab, index2word) \<and>
      dom vocab = set (tokens all_walks) \<and>
      (\<forall>w \<in> set (tokens all_walks). count_of vocab w = count_list (tokens all_walks) w) \<and>
      length index2word = card (set (tokens all_walks)) \<and>
      bij_betw (index_of vocab) (set (tokens all_walks)) {..<length index2word} \<and>
      (\<forall>u \<in> set (tokens all_walks). \<forall>v \<in> set (tokens all_walks).
          count_of vocab u > count_of vocab v \<longrightarrow> index_of vocab u < index_of vocab v) \<and>
      (\<forall>w \<in> set (tokens all_walks). index2word ! index_of vocab w = w) \<and>
      (\<forall>i < length index2word. index_of vocab (index2word ! i) = i)"
proof -
  let ?T = "tokens all_walks"
  from generate_vocab_result [of all_walks]
  obtain vocab index2word where gv: "generate_vocab all_walks = Inr (vocab, index2word)"
    and dist: "distinct index2word" and set_eq: "set index2word = set ?T"
    and none: "\<forall>w. w \<notin> set ?T \<longrightarrow> vocab w = None"
    and some: "\<forall>k < length index2word. \<exists>e. vocab (index2word ! k) = Some e \<and> index e = k \<and>
          count e = count_list ?T (index2word ! k)"
    and mono: "\<forall>i j. i \<le> j \<and> j < length index2word \<longrightarrow>
          count_list ?T (index2word ! j) \<le> count_list ?T (index2word ! i)"
    by (elim exE conjE) (rule that)
  have at: "vocab (index2word ! k) \<noteq> None \<and> index_of vocab (index2word ! k) = k \<and>
      count_of vocab (index2word ! k) = count_list ?T (index2word ! k)"
    if "k < length index2word" for k
    using some that by (auto simp: index_of_def count_of_def)
  have pos: "\<exists>k < length index2word. index2word ! k = w" if "w \<in> set ?T" for w
    using that set_eq by (metis in_set_conv_nth)
  have dom_eq: "dom vocab = set ?T"
  proof
    show "dom vocab \<subseteq> set ?T"
      using none by auto
    show "set ?T \<subseteq> dom vocab"
    proof
      fix w assume "w \<in> set ?T"
      from pos [OF this] obtain k where "k < length index2word" "index2word ! k = w"
        by blast
      then show "w \<in> dom vocab"
        using at [of k] by auto
    qed
  qed
  have cnt: "\<forall>w \<in> set ?T. count_of vocab w = count_list ?T w"
  proof
    fix w assume "w \<in> set ?T"
    from pos [OF this] obtain k where "k < length index2word" "index2word ! k = w"
      by blast
    then show "count_of vocab w = count_list ?T w"
      using at [of k] by auto
  qed
  have inv1: "\<forall>w \<in> set ?T. index_of vocab w < length index2word \<and> index2word ! index_of vocab w = w"
  proof
    fix w assume "w \<in> set ?T"
    from pos [OF this] obtain k where "k < length index2word" "index2word ! k = w"
      by blast
    then show "index_of vocab w < length index2word \<and> index2word ! index_of vocab w = w"
      using at [of k] by auto
  qed
  have inv2: "\<forall>i < length index2word. index_of vocab (index2word ! i) = i"
    using at by blast
  have len: "length index2word = card (set ?T)"
    using dist set_eq by (metis distinct_card)
  have bij: "bij_betw (index_of vocab) (set ?T) {..<length index2word}"
  proof (rule bij_betw_byWitness [where f' = "\<lambda>i. index2word ! i"])
    show "\<forall>a \<in> set ?T. index2word ! index_of vocab a = a"
      using inv1 by blast
    show "\<forall>a' \<in> {..<length index2word}. index_of vocab (index2word ! a') = a'"
      using inv2 by simp
    show "index_of vocab ` set ?T \<subseteq> {..<length index2word}"
      using inv1 by auto
    show "(\<lambda>i. index2word ! i) ` {..<length index2word} \<subseteq> set ?T"
      unfolding set_eq [symmetric] by (simp add: image_subset_iff)
  qed
  have order: "\<forall>u \<in> set ?T. \<forall>v \<in> set ?T.
      count_of vocab u > count_of vocab v \<longrightarrow> index_of vocab u < index_of vocab v"
  proof (intro ballI impI)
    fix u v assume u: "u \<in> set ?T" and v: "v \<in> set ?T"
      and gt: "count_of vocab u > count_of vocab v"
    let ?i = "index_of vocab u" and ?j = "index_of vocab v"
    have iu: "?i < length index2word" "index2word ! ?i = u"
      and jv: "?j < length index2word" "index2word ! ?j = v"
      using inv1 u v by simp_all
    show "?i < ?j"
    proof (rule ccontr)
      assume "\<not> ?i < ?j"
      then have "?j \<le> ?i \<and> ?i < length index2word"
        using iu(1) by simp
      then have "count_list ?T (index2word ! ?i) \<le> count_list ?T (index2word ! ?j)"
        using mono by blast
      then have "count_of vocab u \<le> count_of vocab v"
        using cnt u v by (simp add: iu(2) jv(2))
      then show False
        using gt by simp
    qed
  qed
  have inv3: "\<forall>w \<in> set ?T. index2word ! index_of vocab w = w"
    using inv1 by blast
  show ?thesis
    by (rule exI [of _ vocab], rule exI [of _ index2word])
       (intro conjI gv dom_eq cnt len bij order inv3 inv2)
qed

theorem generate_vocab_indices_witness:
  "(case generate_vocab [[[''a'', ''b'', ''a''], [''b'', ''c'']], [[''c'', ''d'', ''d'', ''d'']]] of
      Inl e \<Rightarrow> None
    | Inr (vocab, index2word) \<Rightarrow> Some (index2word, map vocab index2word)) =
   Some ([''d'', ''a'', ''b'', ''c''],
     [Some \<lparr>count = 3, index = 0\<rparr>, Some \<lparr>count = 2, index = 1\<rparr>,
      Some \<lparr>count = 2, index = 2\<rparr>, Some \<lparr>count = 2, index = 3\<rparr>])"
  using generate_vocab_indices [of "[[[''a'', ''b'', ''a''], [''b'', ''c'']], [[''c'', ''d'', ''d'', ''d'']]]"]
  by (simp add: generate_vocab_def count_walks_def sort_reverse_def vocab_count_def)

section \<open>The training pairs\<close>

lemma append_pair_known:
  assumes "walk ! i \<in> dom vocab" and "walk ! k \<in> dom vocab"
  shows "append_pair vocab walk layer_id i k pairs =
     Inr (pairs @ [(index_of vocab (walk ! i), index_of vocab (walk ! k), layer_id)])"
  by (simp add: append_pair_def vocab_index_known [OF assms(1)] vocab_index_known [OF assms(2)])

lemma distance_loop_eq:
  assumes "set walk \<subseteq> dom vocab" and "i < length walk" and "\<forall>j \<in> set js. 0 \<le> j"
  shows "distance_loop vocab walk layer_id i js pairs =
     Inr (pairs @ concat (map (context_pairs (index_of vocab) layer_id walk i) js))"
  using assms(3)
proof (induction js arbitrary: pairs)
  case Nil
  show ?case by simp
next
  case (Cons j js)
  have j: "0 \<le> j" and js: "\<forall>j \<in> set js. 0 \<le> j"
    using Cons.prems by simp_all
  have ci: "walk ! i \<in> dom vocab"
    using assms(1,2) by (meson nth_mem subsetD)
  have left: "int i - j \<ge> 0 \<Longrightarrow> walk ! nat (int i - j) \<in> dom vocab"
  proof -
    assume "int i - j \<ge> 0"
    then have "nat (int i - j) < length walk"
      using j assms(2) by linarith
    then show ?thesis
      using assms(1) by (meson nth_mem subsetD)
  qed
  have right: "int i + j < int (length walk) \<Longrightarrow> walk ! nat (int i + j) \<in> dom vocab"
  proof -
    assume "int i + j < int (length walk)"
    then have "nat (int i + j) < length walk"
      using assms(2) by linarith
    then show ?thesis
      using assms(1) by (meson nth_mem subsetD)
  qed
  show ?case
  proof (cases "int i - j \<ge> 0")
    case True
    note l = True
    show ?thesis
    proof (cases "int i + j < int (length walk)")
      case True
      show ?thesis
        using l True
        by (simp add: append_pair_known [OF ci left] append_pair_known [OF ci right]
            Cons.IH [OF js] context_pairs_def)
    next
      case False
      show ?thesis
        using l False
        by (simp add: append_pair_known [OF ci left] Cons.IH [OF js] context_pairs_def)
    qed
  next
    case False
    note l = False
    show ?thesis
    proof (cases "int i + j < int (length walk)")
      case True
      show ?thesis
        using l True
        by (simp add: append_pair_known [OF ci right] Cons.IH [OF js] context_pairs_def)
    next
      case False
      show ?thesis
        using l False
        by (simp add: Cons.IH [OF js] context_pairs_def)
    qed
  qed
qed

lemma position_loop_eq:
  assumes "set walk \<subseteq> dom vocab" and "\<forall>i \<in> set is. i < length walk"
  shows "position_loop vocab skip_window walk layer_id is pairs =
     Inr (pairs @ concat (map (\<lambda>i. concat (map (context_pairs (index_of vocab) layer_id walk i)
        [1..skip_window])) is))"
  using assms(2)
proof (induction "is" arbitrary: pairs)
  case Nil
  show ?case by simp
next
  case (Cons i "is")
  have i: "i < length walk" and rest: "\<forall>i \<in> set is. i < length walk"
    using Cons.prems by simp_all
  have pos: "\<forall>j \<in> set [1..skip_window]. 0 \<le> j"
    by simp
  show ?case
    by (simp add: distance_loop_eq [OF assms(1) i pos] Cons.IH [OF rest])
qed

lemma walks_loop_eq:
  assumes "\<forall>walk \<in> set walks. set walk \<subseteq> dom vocab"
  shows "walks_loop vocab skip_window layer_id walks pairs =
     Inr (pairs @ concat (map (walk_pairs (index_of vocab) skip_window layer_id) walks))"
  using assms
proof (induction walks arbitrary: pairs)
  case Nil
  show ?case by simp
next
  case (Cons walk walks)
  have w: "set walk \<subseteq> dom vocab" and rest: "\<forall>walk \<in> set walks. set walk \<subseteq> dom vocab"
    using Cons.prems by simp_all
  have rng: "\<forall>i \<in> set [0..<length walk]. i < length walk"
    by simp
  show ?case
    by (simp add: position_loop_eq [OF w rng] Cons.IH [OF rest] walk_pairs_def)
qed

lemma layers_loop_eq:
  assumes "\<forall>walks \<in> set all_walks. \<forall>walk \<in> set walks. set walk \<subseteq> dom vocab"
  shows "layers_loop vocab skip_window layer_id all_walks pairs =
     Inr (pairs @ concat (map (\<lambda>(layer, walks).
        concat (map (walk_pairs (index_of vocab) skip_window layer) walks))
        (enumerate layer_id all_walks)))"
  using assms
proof (induction all_walks arbitrary: pairs layer_id)
  case Nil
  show ?case by simp
next
  case (Cons walks all_walks)
  have w: "\<forall>walk \<in> set walks. set walk \<subseteq> dom vocab"
    and rest: "\<forall>walks \<in> set all_walks. \<forall>walk \<in> set walks. set walk \<subseteq> dom vocab"
    using Cons.prems by simp_all
  show ?case
    by (simp add: walks_loop_eq [OF w] Cons.IH [OF rest])
qed

lemma generate_pairs_eq:
  assumes "\<forall>walks \<in> set all_walks. \<forall>walk \<in> set walks. set walk \<subseteq> dom vocab"
  shows "generate_pairs all_walks vocab window_size num_workers =
     Inr (corpus_pairs (index_of vocab) (window_size div 2) all_walks)"
  by (simp add: generate_pairs_def corpus_pairs_def layers_loop_eq [OF assms])

lemma context_pairs_mem:
  "p \<in> set (context_pairs idx layer walk i j) \<longleftrightarrow>
     (int i - j \<ge> 0 \<and> p = (idx (walk ! i), idx (walk ! nat (int i - j)), layer)) \<or>
     (int i + j < int (length walk) \<and> p = (idx (walk ! i), idx (walk ! nat (int i + j)), layer))"
  by (auto simp: context_pairs_def)

lemma walk_pairs_set:
  "set (walk_pairs idx half layer walk) =
     (\<Union>i \<in> {0..<length walk}. \<Union>j \<in> {1..half}. set (context_pairs idx layer walk i j))"
  by (simp add: walk_pairs_def)

lemma walk_pairs_memI:
  assumes "i < length walk" and "1 \<le> j" and "j \<le> half"
    and "p \<in> set (context_pairs idx layer walk i j)"
  shows "p \<in> set (walk_pairs idx half layer walk)"
proof -
  have "i \<in> {0..<length walk}" and "j \<in> {1..half}"
    using assms(1-3) by simp_all
  then show ?thesis
    unfolding walk_pairs_set using assms(4) by blast
qed

lemma walk_pairs_mem:
  "(c, x, l) \<in> set (walk_pairs idx half layer walk) \<longleftrightarrow>
     l = layer \<and>
     (\<exists>i k. i < length walk \<and> k < length walk \<and> i \<noteq> k \<and> \<bar>int i - int k\<bar> \<le> half \<and>
        c = idx (walk ! i) \<and> x = idx (walk ! k))"
  (is "?L \<longleftrightarrow> ?R")
proof
  assume ?L
  then obtain i j where i: "i < length walk" and j: "1 \<le> j" "j \<le> half"
    and p: "(c, x, l) \<in> set (context_pairs idx layer walk i j)"
    unfolding walk_pairs_set by auto
  from p consider
    (left) "int i - j \<ge> 0" "(c, x, l) = (idx (walk ! i), idx (walk ! nat (int i - j)), layer)"
    | (right) "int i + j < int (length walk)"
        "(c, x, l) = (idx (walk ! i), idx (walk ! nat (int i + j)), layer)"
    unfolding context_pairs_mem by blast
  then show ?R
  proof cases
    case left
    let ?k = "nat (int i - j)"
    have "?k < length walk" "i \<noteq> ?k" "\<bar>int i - int ?k\<bar> \<le> half"
      using left(1) i j by linarith+
    then show ?thesis
      using left(2) i by blast
  next
    case right
    let ?k = "nat (int i + j)"
    have "?k < length walk" "i \<noteq> ?k" "\<bar>int i - int ?k\<bar> \<le> half"
      using right(1) i j by linarith+
    then show ?thesis
      using right(2) i by blast
  qed
next
  assume ?R
  then obtain i k where l: "l = layer" and i: "i < length walk" and k: "k < length walk"
    and ne: "i \<noteq> k" and d: "\<bar>int i - int k\<bar> \<le> half"
    and c: "c = idx (walk ! i)" and x: "x = idx (walk ! k)"
    by blast
  show ?L
  proof (cases "k < i")
    case True
    let ?j = "int i - int k"
    have j: "1 \<le> ?j" "?j \<le> half"
      using True d by simp_all
    have "nat (int i - ?j) = k" "int i - ?j \<ge> 0"
      by simp_all
    then have "(c, x, l) \<in> set (context_pairs idx layer walk i ?j)"
      unfolding context_pairs_mem using c x l by simp
    then show ?thesis
      by (rule walk_pairs_memI [OF i j])
  next
    case False
    let ?j = "int k - int i"
    have j: "1 \<le> ?j" "?j \<le> half"
      using False ne d by simp_all
    have "nat (int i + ?j) = k" "int i + ?j < int (length walk)"
      using k by simp_all
    then have "(c, x, l) \<in> set (context_pairs idx layer walk i ?j)"
      unfolding context_pairs_mem using c x l by simp
    then show ?thesis
      by (rule walk_pairs_memI [OF i j])
  qed
qed

lemma corpus_pairs_mem:
  "(c, x, l) \<in> set (corpus_pairs idx half all_walks) \<longleftrightarrow>
     l < length all_walks \<and>
     (\<exists>walk \<in> set (all_walks ! l). \<exists>i k. i < length walk \<and> k < length walk \<and> i \<noteq> k \<and>
        \<bar>int i - int k\<bar> \<le> half \<and> c = idx (walk ! i) \<and> x = idx (walk ! k))"
  (is "?L \<longleftrightarrow> ?R")
proof
  assume ?L
  then obtain n walks walk where nw: "(n, walks) \<in> set (enumerate 0 all_walks)"
    and walk: "walk \<in> set walks" and p: "(c, x, l) \<in> set (walk_pairs idx half n walk)"
    by (auto simp: corpus_pairs_def)
  from nw have n: "n < length all_walks" "walks = all_walks ! n"
    by (auto simp: in_set_enumerate_eq)
  from p have "l = n"
    unfolding walk_pairs_mem by simp
  with n walk p show ?R
    unfolding walk_pairs_mem by blast
next
  assume r: ?R
  then obtain walk where l: "l < length all_walks" and walk: "walk \<in> set (all_walks ! l)"
    and p: "(c, x, l) \<in> set (walk_pairs idx half l walk)"
    unfolding walk_pairs_mem by blast
  have "(l, all_walks ! l) \<in> set (enumerate 0 all_walks)"
    using l by (simp add: in_set_enumerate_eq)
  then show ?L
    unfolding corpus_pairs_def using walk p by force
qed

lemma generate_pairs_three:
  assumes "vocab a = Some ea" and "vocab b = Some eb" and "vocab c = Some ec"
  shows "generate_pairs [[[a, b, c]]] vocab 2 num_workers =
     Inr [(index ea, index eb, 0), (index eb, index ea, 0),
          (index eb, index ec, 0), (index ec, index eb, 0)]"
proof -
  have one: "[1..(1::int)] = [1]"
    by (simp add: upto.simps)
  have three: "[0..<length [a, b, c]] = [0, 1, 2]"
    by (simp add: upt_conv_Cons)
  show ?thesis
    unfolding generate_pairs_def
    by (simp add: one three append_pair_def vocab_index_def assms)
qed

lemma generate_vocab_covers:
  "\<exists>vocab index2word. generate_vocab all_walks = Inr (vocab, index2word) \<and>
     words_known vocab all_walks"
proof -
  from generate_vocab_result [of all_walks]
  obtain vocab index2word where gv: "generate_vocab all_walks = Inr (vocab, index2word)"
    and set_eq: "set index2word = set (tokens all_walks)"
    and some: "\<forall>k < length index2word. \<exists>e. vocab (index2word ! k) = Some e \<and> index e = k \<and>
          count e = count_list (tokens all_walks) (index2word ! k)"
    by (elim exE conjE) (rule that)
  have "words_known vocab all_walks"
    unfolding words_known_def
  proof (intro ballI subsetI)
    fix walks walk w
    assume "walks \<in> set all_walks" and "walk \<in> set walks" and "w \<in> set walk"
    then have "w \<in> set (tokens all_walks)"
      unfolding tokens_def by auto
    then have "w \<in> set index2word"
      by (simp only: set_eq)
    then obtain k where "k < length index2word" and "index2word ! k = w"
      by (auto simp: in_set_conv_nth)
    then show "w \<in> dom vocab"
      using some by auto
  qed
  with gv show ?thesis
    by blast
qed

text \<open>
  Claim C6. When every word of every walk is in the vocabulary, as it is for the
  vocabulary that \<^verbatim>\<open>generate_vocab\<close> builds from the walks, \<^verbatim>\<open>generate_pairs\<close>
  returns, with \<open>half = window_size div 2\<close>, exactly the list that holds for each layer,
  each walk, each position \<open>i\<close> and each distance \<open>j\<close> from 1 to \<open>half\<close> the triple of
  \<open>walk[i]\<close>, \<open>walk[i - j]\<close> and the layer when \<open>i - j \<ge> 0\<close>, followed by the triple of
  \<open>walk[i]\<close>, \<open>walk[i + j]\<close> and the layer when \<open>i + j < len(walk)\<close>. A triple is
  emitted exactly when its two words stand in one walk of its layer, at two different
  positions at most \<open>half\<close> apart, so no pair crosses a walk or a layer. A window size
  of 2 on the walk \<open>[a, b, c]\<close> in layer 0 gives exactly the four pairs \<open>(a, b, 0)\<close>,
  \<open>(b, a, 0)\<close>, \<open>(b, c, 0)\<close>, \<open>(c, b, 0)\<close>.
\<close>

theorem generate_pairs_window:
  "(words_known vocab all_walks \<longrightarrow>
      generate_pairs all_walks vocab window_size num_workers =
        Inr (corpus_pairs (index_of vocab) (window_size div 2) all_walks)) \<and>
     (\<exists>vocabulary index2word.
        generate_vocab all_walks = Inr (vocabulary, index2word) \<and>
        generate_pairs all_walks vocabulary window_size num_workers =
          Inr (corpus_pairs (index_of vocabulary) (window_size div 2) all_walks)) \<and>
     (\<forall>center ctx layer.
        (center, ctx, layer)
          \<in> set (corpus_pairs (index_of vocab) (window_size div 2) all_walks) \<longleftrightarrow>
        layer < length all_walks \<and>
        (\<exists>walk \<in> set (all_walks ! layer). \<exists>i k. i < length walk \<and> k < length walk \<and> i \<noteq> k \<and>
           \<bar>int i - int k\<bar> \<le> window_size div 2 \<and>
           center = index_of vocab (walk ! i) \<and> ctx = index_of vocab (walk ! k))) \<and>
     (\<forall>a b c. {a, b, c} \<subseteq> dom vocab \<longrightarrow>
        generate_pairs [[[a, b, c]]] vocab 2 num_workers =
          Inr [(index_of vocab a, index_of vocab b, 0), (index_of vocab b, index_of vocab a, 0),
               (index_of vocab b, index_of vocab c, 0), (index_of vocab c, index_of vocab b, 0)])"
proof (intro conjI allI impI)
  assume "words_known vocab all_walks"
  then have "\<forall>walks \<in> set all_walks. \<forall>walk \<in> set walks. set walk \<subseteq> dom vocab"
    by (simp only: words_known_def)
  then show "generate_pairs all_walks vocab window_size num_workers =
       Inr (corpus_pairs (index_of vocab) (window_size div 2) all_walks)"
    by (rule generate_pairs_eq)
next
  from generate_vocab_covers [of all_walks]
  obtain vocabulary index2word where gv: "generate_vocab all_walks = Inr (vocabulary, index2word)"
    and known: "words_known vocabulary all_walks"
    by (elim exE conjE) (rule that)
  have "\<forall>walks \<in> set all_walks. \<forall>walk \<in> set walks. set walk \<subseteq> dom vocabulary"
    using known by (simp only: words_known_def)
  then have "generate_pairs all_walks vocabulary window_size num_workers =
       Inr (corpus_pairs (index_of vocabulary) (window_size div 2) all_walks)"
    by (rule generate_pairs_eq)
  with gv show "\<exists>vocabulary index2word.
        generate_vocab all_walks = Inr (vocabulary, index2word) \<and>
        generate_pairs all_walks vocabulary window_size num_workers =
          Inr (corpus_pairs (index_of vocabulary) (window_size div 2) all_walks)"
    by blast
next
  fix center ctx layer
  show "(center, ctx, layer)
          \<in> set (corpus_pairs (index_of vocab) (window_size div 2) all_walks) \<longleftrightarrow>
        layer < length all_walks \<and>
        (\<exists>walk \<in> set (all_walks ! layer). \<exists>i k. i < length walk \<and> k < length walk \<and> i \<noteq> k \<and>
           \<bar>int i - int k\<bar> \<le> window_size div 2 \<and>
           center = index_of vocab (walk ! i) \<and> ctx = index_of vocab (walk ! k))"
    by (rule corpus_pairs_mem)
next
  fix a b c assume "{a, b, c} \<subseteq> dom vocab"
  then obtain ea eb ec where e: "vocab a = Some ea" "vocab b = Some eb" "vocab c = Some ec"
    by auto
  show "generate_pairs [[[a, b, c]]] vocab 2 num_workers =
          Inr [(index_of vocab a, index_of vocab b, 0), (index_of vocab b, index_of vocab a, 0),
               (index_of vocab b, index_of vocab c, 0), (index_of vocab c, index_of vocab b, 0)]"
    using generate_pairs_three [of vocab a ea b eb c ec num_workers] e
    by (simp add: index_of_def)
qed

theorem generate_pairs_window_witness:
  "words_known toy_vocab [[[''a'', ''b'', ''c'']], [[''c'', ''a'']]] \<and>
   generate_pairs [[[''a'', ''b'', ''c'']], [[''c'', ''a'']]] toy_vocab 5 16 =
     Inr [(0, 1, 0), (0, 2, 0), (1, 0, 0), (1, 2, 0), (2, 1, 0), (2, 0, 0), (2, 0, 1), (0, 2, 1)] \<and>
   generate_pairs [[[''a'', ''b'', ''c'']]] toy_vocab 2 16 =
     Inr [(0, 1, 0), (1, 0, 0), (1, 2, 0), (2, 1, 0)]"
proof -
  have h: "words_known toy_vocab [[[''a'', ''b'', ''c'']], [[''c'', ''a'']]]"
    by (simp add: words_known_def toy_vocab_def)
  have two: "[1..(2::int)] = [1, 2]"
    by (simp add: upto.simps)
  have ix: "index_of toy_vocab ''a'' = 0" "index_of toy_vocab ''b'' = 1" "index_of toy_vocab ''c'' = 2"
    by (simp_all add: index_of_def toy_vocab_def)
  have c: "corpus_pairs (index_of toy_vocab) (5 div 2) [[[''a'', ''b'', ''c'']], [[''c'', ''a'']]] =
     [(0, 1, 0), (0, 2, 0), (1, 0, 0), (1, 2, 0), (2, 1, 0), (2, 0, 0), (2, 0, 1), (0, 2, 1)]"
    by (simp add: corpus_pairs_def walk_pairs_def context_pairs_def two ix upt_conv_Cons)
  have d: "{''a'', ''b'', ''c''} \<subseteq> dom toy_vocab"
    by (simp add: toy_vocab_def)
  show ?thesis
    using h c d ix
      generate_pairs_window [where vocab = toy_vocab
        and all_walks = "[[[''a'', ''b'', ''c'']], [[''c'', ''a'']]]"
        and window_size = 5 and num_workers = 16]
    by simp
qed

section \<open>The persisted walk corpus\<close>

lemma space_chars: "is_space newline" "is_space carriage_return" "is_space CHR '' ''"
  by (simp_all add: is_space_def newline_def carriage_return_def)

lemma digit_char_facts:
  assumes "d < 10"
  shows "is_digit (digit_char d)" and "digit_value (digit_char d) = d"
    and "\<not> is_space (digit_char d)"
proof -
  have v: "(of_char (digit_char d) :: nat) = 48 + d"
    using assms by (simp add: digit_char_def)
  show "is_digit (digit_char d)"
    using assms by (simp add: is_digit_def v)
  show "digit_value (digit_char d) = d"
    by (simp add: digit_value_def v)
  show "\<not> is_space (digit_char d)"
    using assms by (simp add: is_space_def v Let_def)
qed

lemma digits_str_nat: "\<forall>c \<in> set (str_nat n). is_digit c \<and> \<not> is_space c"
proof (induction n rule: str_nat.induct)
  case (1 n)
  show ?case
  proof (cases "n < 10")
    case True
    then show ?thesis
      by (subst str_nat.simps) (simp add: digit_char_facts)
  next
    case False
    have "n mod 10 < 10"
      by simp
    then have "is_digit (digit_char (n mod 10)) \<and> \<not> is_space (digit_char (n mod 10))"
      by (simp add: digit_char_facts)
    then show ?thesis
      using False "1.IH" by (subst str_nat.simps) simp
  qed
qed

lemma str_nat_nonempty: "str_nat n \<noteq> []"
  by (subst str_nat.simps) simp

lemma plain_str_nat: "plain (str_nat n)"
  using digits_str_nat [of n] by (simp add: plain_def str_nat_nonempty)

lemma parse_digits_all:
  assumes "\<forall>c \<in> set ds. is_digit c"
  shows "parse_digits acc ds = Some (foldl (\<lambda>a c. 10 * a + digit_value c) acc ds)"
  using assms by (induction ds arbitrary: acc) simp_all

lemma str_nat_value: "foldl (\<lambda>a c. 10 * a + digit_value c) 0 (str_nat n) = n"
proof (induction n rule: str_nat.induct)
  case (1 n)
  show ?case
  proof (cases "n < 10")
    case True
    then show ?thesis
      by (subst str_nat.simps) (simp add: digit_char_facts)
  next
    case False
    have "n mod 10 < 10"
      by simp
    then have d: "digit_value (digit_char (n mod 10)) = n mod 10"
      by (rule digit_char_facts)
    show ?thesis
      using False "1.IH" by (subst str_nat.simps) (simp add: d)
  qed
qed

lemma parse_unsigned_str_nat: "parse_unsigned (str_nat n) = Some n"
proof -
  obtain c cs where s: "str_nat n = c # cs"
    using str_nat_nonempty [of n] by (cases "str_nat n") auto
  have dig: "\<forall>c \<in> set (c # cs). is_digit c"
    using digits_str_nat [of n] by (simp only: s) simp
  then have "parse_unsigned (c # cs) = Some (foldl (\<lambda>a c. 10 * a + digit_value c) 0 (c # cs))"
    by (simp add: parse_unsigned_def parse_digits_all)
  then show ?thesis
    using str_nat_value [of n] by (simp only: s)
qed

lemma py_int_str_nat: "py_int (str_nat n) = Inr (int n)"
proof -
  obtain c cs where s: "str_nat n = c # cs"
    using str_nat_nonempty [of n] by (cases "str_nat n") auto
  have "is_digit c"
    using digits_str_nat [of n] by (simp only: s) simp
  then have "c \<noteq> CHR ''-''" and "c \<noteq> CHR ''+''"
    by (auto simp: is_digit_def)
  then show ?thesis
    using parse_unsigned_str_nat [of n] by (simp add: py_int_def s)
qed

lemma split_from_plain:
  assumes "\<forall>c \<in> set word. \<not> is_space c"
  shows "split_from cur (word @ rest) = split_from (cur @ word) rest"
  using assms by (induction word arbitrary: cur) simp_all

lemma split_from_joined:
  assumes "\<forall>word \<in> set (w # ws). plain word"
  shows "split_from [] (join '' '' (w # ws)) = w # ws"
  using assms
proof (induction ws arbitrary: w)
  case Nil
  then have "\<forall>c \<in> set w. \<not> is_space c" and "w \<noteq> []"
    by (simp_all add: plain_def)
  then show ?case
    using split_from_plain [of w "[]" "[]"] by simp
next
  case (Cons v ws)
  have w: "\<forall>c \<in> set w. \<not> is_space c" "w \<noteq> []"
    using Cons.prems by (simp_all add: plain_def)
  have rest: "\<forall>word \<in> set (v # ws). plain word"
    using Cons.prems by simp
  have "split_from [] (join '' '' (w # v # ws)) = split_from [] (w @ CHR '' '' # join '' '' (v # ws))"
    by simp
  also have "\<dots> = split_from w (CHR '' '' # join '' '' (v # ws))"
    using split_from_plain [OF w(1), of "[]"] by simp
  also have "\<dots> = w # split_from [] (join '' '' (v # ws))"
    using w(2) by (simp add: space_chars)
  also have "\<dots> = w # v # ws"
    by (simp only: Cons.IH [OF rest])
  finally show ?case .
qed

lemma join_ends:
  assumes "\<forall>word \<in> set (w # ws). plain word"
  shows "join '' '' (w # ws) \<noteq> []"
    and "\<not> is_space (hd (join '' '' (w # ws)))"
    and "\<not> is_space (last (join '' '' (w # ws)))"
proof -
  have w: "w \<noteq> []" "\<forall>c \<in> set w. \<not> is_space c"
    using assms by (simp_all add: plain_def)
  show "join '' '' (w # ws) \<noteq> []"
    using w(1) by (cases ws) simp_all
  show "\<not> is_space (hd (join '' '' (w # ws)))"
    using w by (cases ws) (simp_all add: hd_append)
  show "\<not> is_space (last (join '' '' (w # ws)))"
    using assms
  proof (induction ws arbitrary: w)
    case Nil
    then show ?case
      by (simp add: plain_def)
  next
    case (Cons v ws)
    have "\<forall>word \<in> set (v # ws). plain word"
      using Cons.prems by simp
    then have l: "\<not> is_space (last (join '' '' (v # ws)))" and n: "join '' '' (v # ws) \<noteq> []"
      using Cons.IH [of v] by (simp_all add: plain_def, cases ws, simp_all)
    have "last (join '' '' (w # v # ws)) = last (join '' '' (v # ws))"
      using n by simp
    then show ?case
      using l by simp
  qed
qed

lemma strip_line:
  assumes "s \<noteq> []" and "\<not> is_space (hd s)" and "\<not> is_space (last s)"
  shows "strip (s @ [newline]) = s"
proof -
  have r: "rev s \<noteq> []" "\<not> is_space (hd (rev s))"
    using assms by (simp_all add: hd_rev)
  then have "dropWhile is_space (rev s) = rev s"
    by (cases "rev s") simp_all
  then have "dropWhile is_space (rev (s @ [newline])) = rev s"
    by (simp add: space_chars)
  moreover have "dropWhile is_space s = s"
    using assms(1,2) by (cases s) simp_all
  ultimately show ?thesis
    by (simp add: strip_def)
qed

lemma split_written:
  assumes "\<forall>word \<in> set walk. plain word"
  shows "split (strip (write_walk layer_id walk)) = str_nat layer_id # walk"
proof -
  have all: "\<forall>word \<in> set (str_nat layer_id # walk). plain word"
    using assms plain_str_nat by simp
  have "strip (write_walk layer_id walk) = join '' '' (str_nat layer_id # walk)"
    unfolding write_walk_def using join_ends [OF all] by (rule strip_line)
  then show ?thesis
    by (simp only: split_def split_from_joined [OF all])
qed

lemma lines_from_unbroken:
  assumes "unbroken s"
  shows "lines_from cur (s @ rest) = lines_from (cur @ s) rest"
  using assms by (induction s arbitrary: cur) (simp_all add: unbroken_def)

lemma lines_from_line:
  assumes "unbroken s"
  shows "lines_from [] (s @ newline # rest) = (s @ [newline]) # lines_from [] rest"
  using lines_from_unbroken [OF assms, of "[]" "newline # rest"] by simp

lemma file_lines_concat:
  assumes "\<forall>l \<in> set ls. \<exists>s. l = s @ [newline] \<and> unbroken s"
  shows "file_lines (concat ls) = ls"
  unfolding file_lines_def using assms
proof (induction ls)
  case Nil
  show ?case by simp
next
  case (Cons l ls)
  obtain s where l: "l = s @ [newline]" and s: "unbroken s"
    using Cons.prems by auto
  have "lines_from [] (concat (l # ls)) = lines_from [] (s @ newline # concat ls)"
    by (simp add: l)
  also have "\<dots> = l # lines_from [] (concat ls)"
    by (simp only: lines_from_line [OF s] l)
  finally show ?case
    using Cons by simp
qed

lemma plain_unbroken: "plain word \<Longrightarrow> unbroken word"
  using space_chars(1,2) by (auto simp: plain_def unbroken_def)

lemma unbroken_join:
  assumes "\<forall>word \<in> set ws. plain word"
  shows "unbroken (join '' '' ws)"
  using assms
proof (induction "'' ''" ws rule: join.induct)
  case 1
  show ?case by (simp add: unbroken_def)
next
  case (2 x)
  then show ?case by (simp add: plain_unbroken)
next
  case (3 x y xs)
  have x: "unbroken x"
    using "3.prems" by (simp add: plain_unbroken)
  have "unbroken (join '' '' (y # xs))"
    using 3 by simp
  then show ?case
    using x by (auto simp: unbroken_def newline_def carriage_return_def)
qed

lemma write_walk_line:
  assumes "\<forall>word \<in> set walk. plain word"
  shows "\<exists>s. write_walk layer_id walk = s @ [newline] \<and> unbroken s"
proof -
  have "\<forall>word \<in> set (str_nat layer_id # walk). plain word"
    using assms plain_str_nat by simp
  then have "unbroken (join '' '' (str_nat layer_id # walk))"
    by (rule unbroken_join)
  then show ?thesis
    by (auto simp: write_walk_def)
qed

lemma foldl_write:
  "foldl (\<lambda>f walk. f @ write_walk k walk) f walks = f @ concat (map (write_walk k) walks)"
  by (induction walks arbitrary: f) simp_all

lemma save_layers_eq:
  "save_layers k all_walks f = f @ concat (written_lines k all_walks)"
  by (induction all_walks arbitrary: k f) (simp_all add: written_lines_def foldl_write)

lemma save_walks_eq: "save_walks all_walks = concat (written_lines 0 all_walks)"
  by (simp add: save_walks_def save_layers_eq)

lemma written_lines_simps:
  "written_lines k [] = []"
  "written_lines k (walks # all_walks) = map (write_walk k) walks @ written_lines (Suc k) all_walks"
  by (simp_all add: written_lines_def)

lemma storable_simps:
  "storable []"
  "storable (walks # all_walks) \<longleftrightarrow>
     walks \<noteq> [] \<and> (\<forall>walk \<in> set walks. \<forall>word \<in> set walk. plain word) \<and> storable all_walks"
  by (auto simp: storable_def)

lemma written_lines_unbroken:
  assumes "\<forall>walks \<in> set all_walks. \<forall>walk \<in> set walks. \<forall>word \<in> set walk. plain word"
  shows "\<forall>l \<in> set (written_lines k all_walks). \<exists>s. l = s @ [newline] \<and> unbroken s"
  using assms
proof (induction all_walks arbitrary: k)
  case Nil
  show ?case by (simp add: written_lines_simps)
next
  case (Cons walks all_walks)
  have here: "\<forall>l \<in> set (map (write_walk k) walks). \<exists>s. l = s @ [newline] \<and> unbroken s"
    using Cons.prems by (auto intro: write_walk_line)
  have "\<forall>l \<in> set (written_lines (Suc k) all_walks). \<exists>s. l = s @ [newline] \<and> unbroken s"
    using Cons.prems by (intro Cons.IH) simp
  then show ?case
    using here unfolding written_lines_simps set_append by blast
qed

lemma file_lines_saved:
  assumes "\<forall>walks \<in> set all_walks. \<forall>walk \<in> set walks. \<forall>word \<in> set walk. plain word"
  shows "file_lines (save_walks all_walks) = written_lines 0 all_walks"
  unfolding save_walks_eq
  using written_lines_unbroken [OF assms] by (rule file_lines_concat)

lemma py_position_inside: "k < n \<Longrightarrow> py_position n (int k) = Inr k"
  by (simp add: py_position_def Let_def)

lemma py_position_beyond: "n \<le> k \<Longrightarrow> py_position n (int k) = Inl IndexError"
  by (simp add: py_position_def Let_def)

lemma load_line_fields:
  assumes "split (strip line) = field # walk" and "py_int field = Inr (int k)"
  shows "load_line all_walks line =
     (if k < length all_walks then Inr (all_walks[k := all_walks ! k @ [walk]])
      else if k = length all_walks then Inr (all_walks @ [[walk]])
      else Inl IndexError)"
proof -
  consider (old) "k < length all_walks" | (new) "k = length all_walks" | (far) "length all_walks < k"
    by linarith
  then show ?thesis
  proof cases
    case old
    then show ?thesis
      by (simp add: load_line_def assms py_position_inside)
  next
    case new
    have "py_position (Suc (length all_walks)) (int (length all_walks)) = Inr (length all_walks)"
      by (rule py_position_inside) simp
    then show ?thesis
      using new by (simp add: load_line_def assms)
  next
    case far
    then have "py_position (Suc (length all_walks)) (int k) = Inl IndexError"
      by (intro py_position_beyond) simp
    then show ?thesis
      using far by (simp add: load_line_def assms)
  qed
qed

lemma load_line_index:
  assumes "split (strip line) = field # walk" and "py_int field = Inr layer_id"
  shows "load_line all_walks line =
     (if 0 \<le> layer_id \<and> layer_id < int (length all_walks)
        then Inr (all_walks[nat layer_id := all_walks ! nat layer_id @ [walk]])
      else if layer_id = int (length all_walks) then Inr (all_walks @ [[walk]])
      else if int (length all_walks) < layer_id then Inl IndexError
      else if - int (length all_walks) \<le> layer_id
        then Inr (all_walks[nat (int (length all_walks) + layer_id) :=
                    all_walks ! nat (int (length all_walks) + layer_id) @ [walk]])
      else Inl IndexError)"
proof (cases "0 \<le> layer_id")
  case True
  then obtain k where k: "layer_id = int k"
    by (metis nonneg_int_cases)
  show ?thesis
    using load_line_fields [OF assms(1), of k all_walks] assms(2)
    by (simp add: k)
next
  case False
  then have neg: "layer_id < 0"
    by simp
  then have small: "\<not> layer_id \<ge> int (length all_walks)"
    by simp
  show ?thesis
  proof (cases "- int (length all_walks) \<le> layer_id")
    case True
    have "py_position (length all_walks) layer_id = Inr (nat (int (length all_walks) + layer_id))"
      using neg True by (simp add: py_position_def Let_def)
    then show ?thesis
      using neg small True by (simp add: load_line_def assms)
  next
    case False
    have "py_position (length all_walks) layer_id = Inl IndexError"
      using neg False by (simp add: py_position_def Let_def)
    then show ?thesis
      using neg small False by (simp add: load_line_def assms)
  qed
qed

lemma load_line_written:
  assumes "\<forall>word \<in> set walk. plain word"
  shows "load_line all_walks (write_walk k walk) =
     (if k < length all_walks then Inr (all_walks[k := all_walks ! k @ [walk]])
      else if k = length all_walks then Inr (all_walks @ [[walk]])
      else Inl IndexError)"
  using split_written [OF assms, of k] py_int_str_nat [of k] by (rule load_line_fields)

lemma load_lines_append:
  "load_lines all_walks (xs @ ys) =
     and_then (load_lines all_walks xs) (\<lambda>all_walks. load_lines all_walks ys)"
proof (induction xs arbitrary: all_walks)
  case Nil
  show ?case by simp
next
  case (Cons x xs)
  show ?case
    by (cases "load_line all_walks x") (simp_all add: Cons.IH)
qed

lemma load_lines_same_layer:
  assumes "\<forall>walk \<in> set walks. \<forall>word \<in> set walk. plain word" and "k < length all_walks"
  shows "load_lines all_walks (map (write_walk k) walks) =
     Inr (all_walks[k := all_walks ! k @ walks])"
  using assms
proof (induction walks arbitrary: all_walks)
  case Nil
  show ?case by simp
next
  case (Cons walk walks)
  have w: "\<forall>word \<in> set walk. plain word"
    and rest: "\<forall>walk \<in> set walks. \<forall>word \<in> set walk. plain word"
    using Cons.prems(1) by simp_all
  let ?next = "all_walks[k := all_walks ! k @ [walk]]"
  have k: "k < length ?next"
    using Cons.prems(2) by simp
  have "load_lines all_walks (map (write_walk k) (walk # walks)) =
      load_lines ?next (map (write_walk k) walks)"
    using Cons.prems(2) by (simp add: load_line_written [OF w])
  also have "\<dots> = Inr (?next[k := ?next ! k @ walks])"
    using rest k by (rule Cons.IH)
  also have "?next[k := ?next ! k @ walks] = all_walks[k := all_walks ! k @ walk # walks]"
    using Cons.prems(2) by simp
  finally show ?case .
qed

lemma load_lines_new_layer:
  assumes "\<forall>walk \<in> set walks. \<forall>word \<in> set walk. plain word" and "walks \<noteq> []"
  shows "load_lines all_walks (map (write_walk (length all_walks)) walks) = Inr (all_walks @ [walks])"
proof -
  obtain walk rest where walks: "walks = walk # rest"
    using assms(2) by (cases walks) auto
  have w: "\<forall>word \<in> set walk. plain word"
    and r: "\<forall>walk \<in> set rest. \<forall>word \<in> set walk. plain word"
    using assms(1) by (simp_all add: walks)
  let ?k = "length all_walks"
  have k: "?k < length (all_walks @ [[walk]])"
    by simp
  have "load_lines all_walks (map (write_walk ?k) walks) =
      load_lines (all_walks @ [[walk]]) (map (write_walk ?k) rest)"
    by (simp add: walks load_line_written [OF w])
  also have "\<dots> = Inr ((all_walks @ [[walk]])[?k := (all_walks @ [[walk]]) ! ?k @ rest])"
    using r k by (rule load_lines_same_layer)
  also have "(all_walks @ [[walk]])[?k := (all_walks @ [[walk]]) ! ?k @ rest] = all_walks @ [walks]"
    by (simp add: walks)
  finally show ?thesis .
qed

lemma load_lines_written:
  assumes "storable rest"
  shows "load_lines all_walks (written_lines (length all_walks) rest) = Inr (all_walks @ rest)"
  using assms
proof (induction rest arbitrary: all_walks)
  case Nil
  show ?case by (simp add: written_lines_simps)
next
  case (Cons walks rest)
  have w: "\<forall>walk \<in> set walks. \<forall>word \<in> set walk. plain word" and n: "walks \<noteq> []"
    and r: "storable rest"
    using Cons.prems by (simp_all add: storable_simps)
  have "load_lines (all_walks @ [walks]) (written_lines (length (all_walks @ [walks])) rest) =
      Inr ((all_walks @ [walks]) @ rest)"
    using r by (rule Cons.IH)
  then show ?case
    by (simp add: written_lines_simps load_lines_append load_lines_new_layer [OF w n])
qed

lemma storable_plain:
  assumes "storable all_walks"
  shows "\<forall>walks \<in> set all_walks. \<forall>walk \<in> set walks. \<forall>word \<in> set walk. plain word"
  using assms by (simp add: storable_def)

lemma lines_from_terminated:
  assumes "xs \<noteq> []" and "last xs = newline"
  shows "lines_from cur (xs @ rest) = lines_from cur xs @ lines_from [] rest"
  using assms
proof (induction cur xs rule: lines_from.induct)
  case (1 line)
  then show ?case by simp
next
  case (2 line c cs)
  show ?case
  proof (cases "c = newline")
    case True
    show ?thesis
    proof (cases "cs = []")
      case True
      then show ?thesis
        using \<open>c = newline\<close> by simp
    next
      case False
      then have "last cs = newline"
        using "2.prems" by simp
      then show ?thesis
        using True False "2.IH"(1) by simp
    qed
  next
    case nl: False
    show ?thesis
    proof (cases "c = carriage_return")
      case True
      have "cs \<noteq> []"
        using "2.prems" True by (auto simp: newline_def carriage_return_def)
      then obtain d ds where cs: "cs = d # ds"
        by (cases cs) auto
      have lcs: "last cs = newline"
        using "2.prems" \<open>cs \<noteq> []\<close> by simp
      show ?thesis
      proof (cases "d = newline")
        case dn: True
        show ?thesis
        proof (cases "ds = []")
          case True
          then show ?thesis
            using nl \<open>c = carriage_return\<close> dn cs by simp
        next
          case False
          then have "last ds = newline"
            using lcs cs by simp
          then show ?thesis
            using nl \<open>c = carriage_return\<close> dn cs False "2.IH"(2) by simp
        qed
      next
        case False
        then show ?thesis
          using nl True cs lcs "2.IH"(3) by simp
      qed
    next
      case False
      have "cs \<noteq> []"
        using "2.prems" nl by auto
      then have "last cs = newline"
        using "2.prems" by simp
      then show ?thesis
        using nl False \<open>cs \<noteq> []\<close> "2.IH"(4) by simp
    qed
  qed
qed

lemma file_lines_extend:
  assumes "content = [] \<or> last content = newline" and "unbroken s"
  shows "file_lines (content @ s @ [newline]) = file_lines content @ [s @ [newline]]"
proof -
  have one: "lines_from [] (s @ [newline]) = [s @ [newline]]"
    using lines_from_line [OF assms(2), of "[]"] by simp
  show ?thesis
  proof (cases "content = []")
    case True
    then show ?thesis
      by (simp add: file_lines_def one)
  next
    case False
    then have "last content = newline"
      using assms(1) by simp
    with False show ?thesis
      by (simp add: file_lines_def lines_from_terminated one)
  qed
qed

text \<open>
  Claim C5, as stated, fails: a layer without walks writes no line, so it is lost or
  makes the load raise IndexError; a word with a space comes back as two words; an
  empty word is dropped.
\<close>

theorem save_load_roundtrip_counterexample:
  "load_walks (save_walks [[]]) \<noteq> Inr [[]] \<and>
   load_walks (save_walks [[], [[''a'']]]) \<noteq> Inr [[], [[''a'']]] \<and>
   load_walks (save_walks [[[''a b'']]]) \<noteq> Inr [[[''a b'']]] \<and>
   load_walks (save_walks [[[''a'', [], ''b'']]]) \<noteq> Inr [[[''a'', [], ''b'']]]"
proof -
  have "load_walks (save_walks [[]]) = Inr []"
    and "load_walks (save_walks [[], [[''a'']]]) = Inl IndexError"
    and "load_walks (save_walks [[[''a b'']]]) = Inr [[[''a'', ''b'']]]"
    and "load_walks (save_walks [[[''a'', [], ''b'']]]) = Inr [[[''a'', ''b'']]]"
    by code_simp+
  then show ?thesis
    by simp
qed

text \<open>
  Claim C5, amended. For every walk collection in which every layer has at least one
  walk and every word is a non-empty string without whitespace, loading what
  \<^verbatim>\<open>save_walks\<close> wrote gives the collection back: the same layers, the same walks,
  the same order.
\<close>

theorem save_load_roundtrip:
  assumes "storable all_walks"
  shows "load_walks (save_walks all_walks) = Inr all_walks"
proof -
  have "file_lines (save_walks all_walks) = written_lines 0 all_walks"
    using storable_plain [OF assms] by (rule file_lines_saved)
  moreover have "load_lines [] (written_lines (length ([]::string list list list)) all_walks) =
      Inr ([] @ all_walks)"
    using assms by (rule load_lines_written)
  ultimately show ?thesis
    by (simp add: load_walks_def)
qed

theorem save_load_roundtrip_witness:
  "storable [[[''a'', ''b''], [''c'']], [[''d'', ''e'', ''f''], []]] \<and>
   save_walks [[[''a'', ''b''], [''c'']], [[''d'', ''e'', ''f''], []]] =
     ''0 a b'' @ [newline] @ ''0 c'' @ [newline] @ ''1 d e f'' @ [newline] @ ''1'' @ [newline] \<and>
   load_walks (save_walks [[[''a'', ''b''], [''c'']], [[''d'', ''e'', ''f''], []]]) =
     Inr [[[''a'', ''b''], [''c'']], [[''d'', ''e'', ''f''], []]]"
proof -
  have h: "storable [[[''a'', ''b''], [''c'']], [[''d'', ''e'', ''f''], []]]"
    by (simp add: storable_def plain_def is_space_def)
  have w: "save_walks [[[''a'', ''b''], [''c'']], [[''d'', ''e'', ''f''], []]] =
     ''0 a b'' @ [newline] @ ''0 c'' @ [newline] @ ''1 d e f'' @ [newline] @ ''1'' @ [newline]"
    by code_simp
  show ?thesis
    using h w save_load_roundtrip [OF h] by simp
qed

text \<open>
  Claim C7, as stated, fails: the third line returns to layer 0 after layer 1 and is
  appended to layer 0; nothing is raised.
\<close>

theorem load_walks_out_of_order_counterexample:
  "load_walks (''0 a'' @ [newline] @ ''1 b'' @ [newline] @ ''0 c'' @ [newline]) =
     Inr [[[''a''], [''c'']], [[''b'']]]"
  by code_simp

text \<open>
  Claim C7, amended. \<^verbatim>\<open>load_walks\<close> does not check the order of the layer indices.
  After a content that loads, with \<open>n\<close> layers found so far, a further line is treated
  by its layer index alone: an index from 0 up to \<open>n - 1\<close> (so also one smaller than an
  index seen before) appends the walk to that layer, and the load succeeds; the index
  \<open>n\<close> starts a new layer; a larger index makes the load fail, with IndexError. A negative
  index is Python's index from the end: from \<open>-n\<close> up to \<open>-1\<close> it appends the walk to
  the layer \<open>n + index\<close>, and the load succeeds; below \<open>-n\<close> the load fails, with
  IndexError.
\<close>

theorem load_walks_existing_layer:
  assumes "load_walks content = Inr all_walks"
    and "content = [] \<or> last content = newline"
    and "unbroken s"
    and "split (strip (s @ [newline])) = field # walk"
    and "py_int field = Inr layer_id"
  shows "(0 \<le> layer_id \<and> layer_id < int (length all_walks) \<longrightarrow>
      load_walks (content @ s @ [newline]) =
        Inr (all_walks[nat layer_id := all_walks ! nat layer_id @ [walk]])) \<and>
    (layer_id = int (length all_walks) \<longrightarrow>
      load_walks (content @ s @ [newline]) = Inr (all_walks @ [[walk]])) \<and>
    (int (length all_walks) < layer_id \<longrightarrow>
      load_walks (content @ s @ [newline]) = Inl IndexError) \<and>
    (- int (length all_walks) \<le> layer_id \<and> layer_id < 0 \<longrightarrow>
      load_walks (content @ s @ [newline]) =
        Inr (all_walks[nat (int (length all_walks) + layer_id) :=
               all_walks ! nat (int (length all_walks) + layer_id) @ [walk]])) \<and>
    (layer_id < - int (length all_walks) \<longrightarrow>
      load_walks (content @ s @ [newline]) = Inl IndexError)"
proof -
  have "load_lines [] (file_lines content) = Inr all_walks"
    using assms(1) by (simp only: load_walks_def)
  moreover have "and_then r Inr = r" for r :: "py_error + string list list list"
    by (cases r) simp_all
  ultimately have line: "load_walks (content @ s @ [newline]) = load_line all_walks (s @ [newline])"
    by (simp add: load_walks_def file_lines_extend [OF assms(2,3)] load_lines_append)
  show ?thesis
    unfolding line by (simp add: load_line_index [OF assms(4,5)])
qed

theorem load_walks_existing_layer_witness:
  "load_walks (''0 a'' @ [newline] @ ''1 b'' @ [newline]) = Inr [[[''a'']], [[''b'']]] \<and>
   last (''0 a'' @ [newline] @ ''1 b'' @ [newline]) = newline \<and>
   unbroken ''0 c'' \<and>
   split (strip (''0 c'' @ [newline])) = ''0'' # [''c''] \<and>
   py_int ''0'' = Inr 0 \<and>
   py_int ''2'' = Inr 2 \<and>
   py_int ''3'' = Inr 3 \<and>
   py_int ''-1'' = Inr (- 1) \<and>
   py_int ''-2'' = Inr (- 2) \<and>
   py_int ''-3'' = Inr (- 3) \<and>
   load_walks ((''0 a'' @ [newline] @ ''1 b'' @ [newline]) @ ''0 c'' @ [newline]) =
     Inr [[[''a''], [''c'']], [[''b'']]] \<and>
   load_walks ((''0 a'' @ [newline] @ ''1 b'' @ [newline]) @ ''2 c'' @ [newline]) =
     Inr [[[''a'']], [[''b'']], [[''c'']]] \<and>
   load_walks ((''0 a'' @ [newline] @ ''1 b'' @ [newline]) @ ''3 c'' @ [newline]) =
     Inl IndexError \<and>
   load_walks ((''0 a'' @ [newline] @ ''1 b'' @ [newline]) @ ''-1 c'' @ [newline]) =
     Inr [[[''a'']], [[''b''], [''c'']]] \<and>
   load_walks ((''0 a'' @ [newline] @ ''1 b'' @ [newline]) @ ''-2 c'' @ [newline]) =
     Inr [[[''a''], [''c'']], [[''b'']]] \<and>
   load_walks ((''0 a'' @ [newline] @ ''1 b'' @ [newline]) @ ''-3 c'' @ [newline]) =
     Inl IndexError"
proof -
  have 1: "load_walks (''0 a'' @ [newline] @ ''1 b'' @ [newline]) = Inr [[[''a'']], [[''b'']]]"
    by code_simp
  have 2: "''0 a'' @ [newline] @ ''1 b'' @ [newline] = [] \<or>
      last (''0 a'' @ [newline] @ ''1 b'' @ [newline]) = newline"
    by simp
  have u: "unbroken ''0 c''" "unbroken ''2 c''" "unbroken ''3 c''"
      "unbroken ''-1 c''" "unbroken ''-2 c''" "unbroken ''-3 c''"
    by (simp_all add: unbroken_def newline_def carriage_return_def)
  have f0: "split (strip (''0 c'' @ [newline])) = ''0'' # [''c'']"
    by code_simp
  have f2: "split (strip (''2 c'' @ [newline])) = ''2'' # [''c'']"
    by code_simp
  have f3: "split (strip (''3 c'' @ [newline])) = ''3'' # [''c'']"
    by code_simp
  have g1: "split (strip (''-1 c'' @ [newline])) = ''-1'' # [''c'']"
    by code_simp
  have g2: "split (strip (''-2 c'' @ [newline])) = ''-2'' # [''c'']"
    by code_simp
  have g3: "split (strip (''-3 c'' @ [newline])) = ''-3'' # [''c'']"
    by code_simp
  have i0: "py_int ''0'' = Inr 0"
    by code_simp
  have i2: "py_int ''2'' = Inr 2"
    by code_simp
  have i3: "py_int ''3'' = Inr 3"
    by code_simp
  have j1: "py_int ''-1'' = Inr (- 1)"
    by code_simp
  have j2: "py_int ''-2'' = Inr (- 2)"
    by code_simp
  have j3: "py_int ''-3'' = Inr (- 3)"
    by code_simp
  show ?thesis
    using 1 u(1) f0 i0 i2 i3 j1 j2 j3
      load_walks_existing_layer [OF 1 2 u(1) f0 i0]
      load_walks_existing_layer [OF 1 2 u(2) f2 i2]
      load_walks_existing_layer [OF 1 2 u(3) f3 i3]
      load_walks_existing_layer [OF 1 2 u(4) g1 j1]
      load_walks_existing_layer [OF 1 2 u(5) g2 j2]
      load_walks_existing_layer [OF 1 2 u(6) g3 j3]
    by simp
qed

section \<open>The neighbour table\<close>

lemma set_cell_shape:
  assumes "shape nb n m"
  shows "shape (set_cell nb i r cell) n m"
proof (cases "i < length nb")
  case True
  then show ?thesis
    using assms by (simp add: shape_def set_cell_def nth_list_update)
next
  case False
  then show ?thesis
    using assms by (simp add: shape_def set_cell_def)
qed

lemma set_cell_nth:
  assumes "shape nb n m" and "i < n" and "r < m" and "i' < n" and "r' < m"
  shows "set_cell nb i r cell ! i' ! r' = (if i' = i \<and> r' = r then cell else nb ! i' ! r')"
  using assms by (auto simp: shape_def set_cell_def nth_list_update)

lemma append_neighbor_eq:
  assumes "shape nb n m" and "i < n" and "r < m"
  shows "append_neighbor nb i r v = Inr (set_cell nb i r (nb ! i ! r @ [v]))"
  using assms by (simp add: append_neighbor_def set_cell_def shape_def)

lemma accumulated_simps:
  "accumulated idx [] i = []"
  "accumulated idx (e # g) i = incident idx i e @ accumulated idx g i"
  "accumulated idx (g @ h) i = accumulated idx g i @ accumulated idx h i"
  by (simp_all add: accumulated_def)

lemma edges_loop_eq:
  assumes "shape nb n m" and "r < m"
    and "\<forall>e \<in> set g. fst e \<in> dom vocab \<and> snd e \<in> dom vocab \<and>
           index_of vocab (fst e) < n \<and> index_of vocab (snd e) < n"
  shows "\<exists>nb'. edges_loop vocab r nb g = Inr nb' \<and> shape nb' n m \<and>
     (\<forall>i < n. \<forall>q < m. nb' ! i ! q =
        (if q = r then nb ! i ! r @ accumulated (index_of vocab) g i else nb ! i ! q))"
  using assms(1,3)
proof (induction g arbitrary: nb)
  case Nil
  then show ?case
    by (simp add: accumulated_simps)
next
  case (Cons e g)
  obtain x y where e: "e = (x, y)"
    by (cases e)
  let ?ix = "index_of vocab x" and ?iy = "index_of vocab y"
  have x: "x \<in> dom vocab" "?ix < n" and y: "y \<in> dom vocab" "?iy < n"
    using Cons.prems(2) by (simp_all add: e)
  have rest: "\<forall>e \<in> set g. fst e \<in> dom vocab \<and> snd e \<in> dom vocab \<and>
           index_of vocab (fst e) < n \<and> index_of vocab (snd e) < n"
    using Cons.prems(2) by simp
  let ?nb1 = "set_cell nb ?ix r (nb ! ?ix ! r @ [?iy])"
  let ?nb2 = "set_cell ?nb1 ?iy r (?nb1 ! ?iy ! r @ [?ix])"
  have s1: "shape ?nb1 n m"
    using Cons.prems(1) by (rule set_cell_shape)
  have s2: "shape ?nb2 n m"
    using s1 by (rule set_cell_shape)
  have a1: "append_neighbor nb ?ix r ?iy = Inr ?nb1"
    using Cons.prems(1) x(2) assms(2) by (rule append_neighbor_eq)
  have a2: "append_neighbor ?nb1 ?iy r ?ix = Inr ?nb2"
    using s1 y(2) assms(2) by (rule append_neighbor_eq)
  have step: "edges_loop vocab r nb (e # g) = edges_loop vocab r ?nb2 g"
    by (simp add: e vocab_index_known x(1) y(1) a1 a2)
  have cell: "?nb2 ! i ! q = (if q = r then nb ! i ! r @ incident (index_of vocab) i e else nb ! i ! q)"
    if "i < n" "q < m" for i q
    using that x(2) y(2) assms(2)
    by (simp add: set_cell_nth [OF s1] set_cell_nth [OF Cons.prems(1)] incident_def e)
  from Cons.IH [OF s2 rest]
  obtain nb' where r: "edges_loop vocab r ?nb2 g = Inr nb'" and s: "shape nb' n m"
    and c: "\<forall>i < n. \<forall>q < m. nb' ! i ! q =
        (if q = r then ?nb2 ! i ! r @ accumulated (index_of vocab) g i else ?nb2 ! i ! q)"
    by (elim exE conjE) (rule that)
  have "\<forall>i < n. \<forall>q < m. nb' ! i ! q =
        (if q = r then nb ! i ! r @ accumulated (index_of vocab) (e # g) i else nb ! i ! q)"
    using c assms(2) by (simp add: cell accumulated_simps)
  then show ?case
    using r s by (simp only: step) blast
qed

lemma random_choice_eq:
  assumes "a \<noteq> []"
  shows "\<exists>drawn. random_choice rnd pos a k = Inr drawn \<and> length drawn = k \<and> set drawn \<subseteq> set a"
proof -
  let ?drawn = "map (\<lambda>j. a ! (rnd (pos + j) mod length a)) [0..<k]"
  have "rnd (pos + j) mod length a < length a" for j
    using assms by simp
  then have "set ?drawn \<subseteq> set a"
    by (auto simp: nth_mem)
  then show ?thesis
    using assms by (simp add: random_choice_def)
qed

lemma resize_eq:
  "\<exists>cell' pos'. resize rnd pos i cell neighbor_samples = Inr (cell', pos') \<and>
     reconciled i neighbor_samples cell cell'"
proof -
  consider (empty) "cell = []"
    | (fewer) "cell \<noteq> []" "length cell < neighbor_samples"
    | (exact) "cell \<noteq> []" "length cell = neighbor_samples"
    | (more) "cell \<noteq> []" "neighbor_samples < length cell"
    by (cases "cell = []") (auto simp: not_less intro: linorder_cases)
  then show ?thesis
  proof cases
    case empty
    then show ?thesis
      by (simp add: resize_def reconciled_def)
  next
    case fewer
    from random_choice_eq [OF fewer(1), of rnd pos "neighbor_samples - length cell"]
    obtain extra where e: "random_choice rnd pos cell (neighbor_samples - length cell) = Inr extra"
      "length extra = neighbor_samples - length cell" "set extra \<subseteq> set cell"
      by (elim exE conjE) (rule that)
    have "resize rnd pos i cell neighbor_samples =
        Inr (cell @ extra, pos + (neighbor_samples - length cell))"
      using fewer by (simp add: resize_def e(1))
    moreover have "reconciled i neighbor_samples cell (cell @ extra)"
      using fewer e(2,3) by (simp add: reconciled_def)
    ultimately show ?thesis
      by blast
  next
    case exact
    then have "0 < neighbor_samples"
      by (cases cell) auto
    then show ?thesis
      using exact by (simp add: resize_def reconciled_def)
  next
    case more
    from random_choice_eq [OF more(1), of rnd pos neighbor_samples]
    obtain drawn where d: "random_choice rnd pos cell neighbor_samples = Inr drawn"
      "length drawn = neighbor_samples" "set drawn \<subseteq> set cell"
      by (elim exE conjE) (rule that)
    have "resize rnd pos i cell neighbor_samples = Inr (drawn, pos + neighbor_samples)"
      using more by (simp add: resize_def d(1))
    moreover have "reconciled i neighbor_samples cell drawn"
      using more d(2,3) by (simp add: reconciled_def)
    ultimately show ?thesis
      by blast
  qed
qed

lemma nodes_loop_eq:
  assumes "shape nb n m" and "r < m" and "distinct is" and "\<forall>i \<in> set is. i < n"
  shows "\<exists>nb' pos'. nodes_loop rnd neighbor_samples r is (nb, pos) = Inr (nb', pos') \<and>
     shape nb' n m \<and>
     (\<forall>i < n. \<forall>q < m.
        if q = r \<and> i \<in> set is then reconciled i neighbor_samples (nb ! i ! r) (nb' ! i ! r)
        else nb' ! i ! q = nb ! i ! q)"
  using assms(1,3,4)
proof (induction "is" arbitrary: nb pos)
  case Nil
  then show ?case by simp
next
  case (Cons j js)
  have j: "j < n" and js: "\<forall>i \<in> set js. i < n" and d: "distinct js" and fresh: "j \<notin> set js"
    using Cons.prems(2,3) by simp_all
  from resize_eq [of rnd pos j "nb ! j ! r" neighbor_samples]
  obtain cell pos1 where rz: "resize rnd pos j (nb ! j ! r) neighbor_samples = Inr (cell, pos1)"
    and rc: "reconciled j neighbor_samples (nb ! j ! r) cell"
    by (elim exE conjE) (rule that)
  let ?nb1 = "set_cell nb j r cell"
  have s1: "shape ?nb1 n m"
    using Cons.prems(1) by (rule set_cell_shape)
  have inb: "j < length nb \<and> r < length (nb ! j)"
    using Cons.prems(1) j assms(2) by (simp add: shape_def)
  have step: "nodes_loop rnd neighbor_samples r (j # js) (nb, pos) =
      nodes_loop rnd neighbor_samples r js (?nb1, pos1)"
    using inb by (simp add: rz set_cell_def)
  from Cons.IH [OF s1 d js, of pos1]
  obtain nb' pos' where r: "nodes_loop rnd neighbor_samples r js (?nb1, pos1) = Inr (nb', pos')"
    and s: "shape nb' n m"
    and c: "\<forall>i < n. \<forall>q < m.
        if q = r \<and> i \<in> set js then reconciled i neighbor_samples (?nb1 ! i ! r) (nb' ! i ! r)
        else nb' ! i ! q = ?nb1 ! i ! q"
    by (elim exE conjE) (rule that)
  have "\<forall>i < n. \<forall>q < m.
        if q = r \<and> i \<in> set (j # js) then reconciled i neighbor_samples (nb ! i ! r) (nb' ! i ! r)
        else nb' ! i ! q = nb ! i ! q"
  proof (intro allI impI)
    fix i q assume i: "i < n" and q: "q < m"
    have old: "?nb1 ! i ! q = (if i = j \<and> q = r then cell else nb ! i ! q)"
      using Cons.prems(1) j assms(2) i q by (rule set_cell_nth)
    have old_r: "?nb1 ! i ! r = (if i = j then cell else nb ! i ! r)"
      using set_cell_nth [OF Cons.prems(1) j assms(2) i assms(2), of cell] by simp
    have ci: "if q = r \<and> i \<in> set js
        then reconciled i neighbor_samples (?nb1 ! i ! r) (nb' ! i ! r)
        else nb' ! i ! q = ?nb1 ! i ! q"
      using c i q by blast
    show "if q = r \<and> i \<in> set (j # js)
        then reconciled i neighbor_samples (nb ! i ! r) (nb' ! i ! r)
        else nb' ! i ! q = nb ! i ! q"
    proof (cases "q = r \<and> i \<in> set js")
      case True
      then have "i \<noteq> j"
        using fresh by blast
      then show ?thesis
        using ci True by (simp add: old_r)
    next
      case False
      then have eq: "nb' ! i ! q = ?nb1 ! i ! q"
        using ci by simp
      show ?thesis
      proof (cases "q = r \<and> i = j")
        case True
        have "?nb1 ! j ! r = cell"
          using set_cell_nth [OF Cons.prems(1) j assms(2) j assms(2), of cell] by simp
        then show ?thesis
          using eq rc True by simp
      next
        case F: False
        then show ?thesis
          using eq False by (auto simp: old)
      qed
    qed
  qed
  then show ?case
    using r s by (simp only: step) blast
qed

lemma types_loop_eq:
  assumes "indexed_edges network_data vocab n edge_types"
    and "shape nb n (length edge_types)" and "distinct rs"
    and "\<forall>r \<in> set rs. r < length edge_types"
    and "\<forall>i < n. \<forall>r \<in> set rs. nb ! i ! r = []"
  shows "\<exists>nb' pos'.
     types_loop rnd network_data vocab n edge_types neighbor_samples rs (nb, pos) = Inr (nb', pos') \<and>
     shape nb' n (length edge_types) \<and>
     (\<forall>i < n. \<forall>q < length edge_types.
        if q \<in> set rs
        then reconciled i neighbor_samples
               (accumulated (index_of vocab) (edges_of network_data (edge_types ! q)) i) (nb' ! i ! q)
        else nb' ! i ! q = nb ! i ! q)"
  using assms(2-5)
proof (induction rs arbitrary: nb pos)
  case Nil
  then show ?case by simp
next
  case (Cons r rs)
  let ?m = "length edge_types"
  have r: "r < ?m" and rs: "\<forall>r \<in> set rs. r < ?m" and d: "distinct rs" and fresh: "r \<notin> set rs"
    using Cons.prems(2,3) by simp_all
  have t: "edge_types ! r \<in> set edge_types"
    using r by simp
  let ?g = "edges_of network_data (edge_types ! r)"
  have g: "network_data (edge_types ! r) = Some ?g"
    using assms(1) t by (auto simp: indexed_edges_def edges_of_def)
  have wf: "\<forall>e \<in> set ?g. fst e \<in> dom vocab \<and> snd e \<in> dom vocab \<and>
           index_of vocab (fst e) < n \<and> index_of vocab (snd e) < n"
    using assms(1) t unfolding indexed_edges_def by blast
  from edges_loop_eq [OF Cons.prems(1) r wf]
  obtain nb1 where e1: "edges_loop vocab r nb ?g = Inr nb1" and s1: "shape nb1 n ?m"
    and c1: "\<forall>i < n. \<forall>q < ?m. nb1 ! i ! q =
        (if q = r then nb ! i ! r @ accumulated (index_of vocab) ?g i else nb ! i ! q)"
    by (elim exE conjE) (rule that)
  have range: "distinct [0..<n]" "\<forall>i \<in> set [0..<n]. i < n"
    by simp_all
  from nodes_loop_eq [OF s1 r range, of rnd neighbor_samples pos]
  obtain nb2 pos2 where e2: "nodes_loop rnd neighbor_samples r [0..<n] (nb1, pos) = Inr (nb2, pos2)"
    and s2: "shape nb2 n ?m"
    and c2: "\<forall>i < n. \<forall>q < ?m.
        if q = r \<and> i \<in> set [0..<n] then reconciled i neighbor_samples (nb1 ! i ! r) (nb2 ! i ! r)
        else nb2 ! i ! q = nb1 ! i ! q"
    by (elim exE conjE) (rule that)
  have at_r: "reconciled i neighbor_samples (accumulated (index_of vocab) ?g i) (nb2 ! i ! r)"
    if "i < n" for i
  proof -
    have "nb1 ! i ! r = accumulated (index_of vocab) ?g i"
      using c1 that r Cons.prems(4) by simp
    moreover have "reconciled i neighbor_samples (nb1 ! i ! r) (nb2 ! i ! r)"
      using c2 that r by simp
    ultimately show ?thesis
      by simp
  qed
  have other: "nb2 ! i ! q = nb ! i ! q" if "i < n" "q < ?m" "q \<noteq> r" for i q
    using c1 c2 that by simp
  have empty: "\<forall>i < n. \<forall>q \<in> set rs. nb2 ! i ! q = []"
  proof (intro allI impI ballI)
    fix i q assume i: "i < n" and q: "q \<in> set rs"
    then have "q < ?m" "q \<noteq> r"
      using rs fresh by auto
    then show "nb2 ! i ! q = []"
      using other [OF i] Cons.prems(4) i q by simp
  qed
  have step: "types_loop rnd network_data vocab n edge_types neighbor_samples (r # rs) (nb, pos) =
      types_loop rnd network_data vocab n edge_types neighbor_samples rs (nb2, pos2)"
    by (simp add: g e1 e2)
  from Cons.IH [OF s2 d rs empty, of pos2]
  obtain nb' pos' where
    e3: "types_loop rnd network_data vocab n edge_types neighbor_samples rs (nb2, pos2) = Inr (nb', pos')"
    and s3: "shape nb' n ?m"
    and c3: "\<forall>i < n. \<forall>q < ?m.
        if q \<in> set rs
        then reconciled i neighbor_samples
               (accumulated (index_of vocab) (edges_of network_data (edge_types ! q)) i) (nb' ! i ! q)
        else nb' ! i ! q = nb2 ! i ! q"
    by (elim exE conjE) (rule that)
  have "\<forall>i < n. \<forall>q < ?m.
        if q \<in> set (r # rs)
        then reconciled i neighbor_samples
               (accumulated (index_of vocab) (edges_of network_data (edge_types ! q)) i) (nb' ! i ! q)
        else nb' ! i ! q = nb ! i ! q"
  proof (intro allI impI)
    fix i q assume i: "i < n" and q: "q < ?m"
    have ci: "if q \<in> set rs
        then reconciled i neighbor_samples
               (accumulated (index_of vocab) (edges_of network_data (edge_types ! q)) i) (nb' ! i ! q)
        else nb' ! i ! q = nb2 ! i ! q"
      using c3 i q by blast
    show "if q \<in> set (r # rs)
        then reconciled i neighbor_samples
               (accumulated (index_of vocab) (edges_of network_data (edge_types ! q)) i) (nb' ! i ! q)
        else nb' ! i ! q = nb ! i ! q"
    proof (cases "q \<in> set rs")
      case True
      then show ?thesis
        using ci by simp
    next
      case False
      then have eq: "nb' ! i ! q = nb2 ! i ! q"
        using ci by simp
      show ?thesis
      proof (cases "q = r")
        case True
        then show ?thesis
          using eq at_r [OF i] by simp
      next
        case F: False
        then show ?thesis
          using eq False other [OF i q F] by simp
      qed
    qed
  qed
  then show ?case
    using e3 s3 by (simp only: step) blast
qed

lemma generate_neighbors_cells:
  assumes "indexed_edges network_data vocab num_nodes edge_types"
  shows "\<exists>neighbors.
     generate_neighbors rnd network_data vocab num_nodes edge_types neighbor_samples = Inr neighbors \<and>
     shape neighbors num_nodes (length edge_types) \<and>
     (\<forall>i < num_nodes. \<forall>r < length edge_types.
        reconciled i neighbor_samples
          (accumulated (index_of vocab) (edges_of network_data (edge_types ! r)) i)
          (neighbors ! i ! r))"
proof -
  let ?m = "length edge_types"
  let ?nb = "replicate num_nodes (replicate ?m ([]::nat list))"
  have s: "shape ?nb num_nodes ?m"
    by (simp add: shape_def)
  have range: "distinct [0..<?m]" "\<forall>r \<in> set [0..<?m]. r < ?m"
    by simp_all
  have empty: "\<forall>i < num_nodes. \<forall>r \<in> set [0..<?m]. ?nb ! i ! r = []"
    by simp
  from types_loop_eq [OF assms s range empty, of rnd neighbor_samples 0]
  obtain nb' pos' where
    e: "types_loop rnd network_data vocab num_nodes edge_types neighbor_samples [0..<?m] (?nb, 0) =
        Inr (nb', pos')"
    and s': "shape nb' num_nodes ?m"
    and c: "\<forall>i < num_nodes. \<forall>q < ?m.
        if q \<in> set [0..<?m]
        then reconciled i neighbor_samples
               (accumulated (index_of vocab) (edges_of network_data (edge_types ! q)) i) (nb' ! i ! q)
        else nb' ! i ! q = ?nb ! i ! q"
    by (elim exE conjE) (rule that)
  have "generate_neighbors rnd network_data vocab num_nodes edge_types neighbor_samples = Inr nb'"
    by (simp add: generate_neighbors_def Let_def e)
  moreover have "\<forall>i < num_nodes. \<forall>r < ?m.
        reconciled i neighbor_samples
          (accumulated (index_of vocab) (edges_of network_data (edge_types ! r)) i) (nb' ! i ! r)"
    using c by simp
  ultimately show ?thesis
    using s' by blast
qed

lemma accumulated_length:
  "length (accumulated idx g i) =
     length (filter (\<lambda>e. idx (fst e) = i) g) + length (filter (\<lambda>e. idx (snd e) = i) g)"
  by (induction g) (simp_all add: accumulated_simps incident_def)

lemma accumulated_duplicates:
  assumes "idx x = i" and "idx y \<noteq> i"
  shows "accumulated idx (replicate k (x, y)) i = replicate k (idx y)"
  using assms by (induction k) (simp_all add: accumulated_simps incident_def)

lemma accumulated_untouched:
  assumes "\<forall>e \<in> set g. idx (fst e) \<noteq> i \<and> idx (snd e) \<noteq> i"
  shows "accumulated idx g i = []"
  using assms by (induction g) (simp_all add: accumulated_simps incident_def)

lemma accumulated_self_loop:
  assumes "\<forall>e \<in> set (g1 @ g2). idx (fst e) \<noteq> idx x \<and> idx (snd e) \<noteq> idx x"
  shows "accumulated idx (g1 @ (x, x) # g2) (idx x) = [idx x, idx x]"
proof -
  have "accumulated idx g1 (idx x) = []" and "accumulated idx g2 (idx x) = []"
    using assms by (simp_all add: accumulated_untouched)
  then show ?thesis
    by (simp add: accumulated_simps incident_def)
qed

lemma reconciled_own:
  assumes "reconciled i neighbor_samples [i, i] cell"
  shows "cell = replicate neighbor_samples i"
proof -
  have len: "length cell = neighbor_samples"
    using assms by (simp add: reconciled_def)
  have "set cell \<subseteq> {i}"
  proof (cases "neighbor_samples \<le> 2")
    case True
    then consider "neighbor_samples < 2" | "neighbor_samples = 2"
      by linarith
    then show ?thesis
    proof cases
      case 1
      then show ?thesis
        using assms by (simp add: reconciled_def)
    next
      case 2
      then show ?thesis
        using assms by (simp add: reconciled_def)
    qed
  next
    case False
    then have "take (Suc (Suc 0)) cell = [i, i]" and "set (drop (Suc (Suc 0)) cell) \<subseteq> {i}"
      using assms by (simp_all add: reconciled_def)
    then have "set (take (Suc (Suc 0)) cell @ drop (Suc (Suc 0)) cell) \<subseteq> {i}"
      by (simp only: set_append) simp
    then show ?thesis
      by (simp only: append_take_drop_id)
  qed
  then have "replicate (length cell) i = cell"
    by (intro replicate_length_same) blast
  then show ?thesis
    by (simp add: len)
qed

text \<open>
  Claim C3. When every edge type has an edge list and every edge endpoint is in the
  vocabulary (with an index below \<^verbatim>\<open>num_nodes\<close>), \<^verbatim>\<open>generate_neighbors\<close> returns a
  table with one row per node index and one list per edge-type position, each of exactly
  \<^verbatim>\<open>neighbor_samples\<close> entries. The entries are accumulated one per raw edge occurrence:
  the edge loop of a type appends them to the lists of its column, their number is the
  number of edge ends at the node, and \<open>k\<close> copies of an edge contribute \<open>k\<close> entries. A node without accumulated entries gets \<^verbatim>\<open>neighbor_samples\<close>
  copies of its own index; with fewer entries than \<^verbatim>\<open>neighbor_samples\<close> it keeps all of
  them, followed by entries that are elements of the accumulated list; with exactly
  \<^verbatim>\<open>neighbor_samples\<close> entries it keeps the list; with more, every entry is an element
  of the accumulated list.
\<close>

theorem generate_neighbors_table:
  assumes "indexed_edges network_data vocab num_nodes edge_types"
  shows "\<exists>neighbors.
     generate_neighbors rnd network_data vocab num_nodes edge_types neighbor_samples = Inr neighbors \<and>
     length neighbors = num_nodes \<and>
     (\<forall>i < num_nodes. length (neighbors ! i) = length edge_types \<and>
        (\<forall>r < length edge_types.
           (let g = edges_of network_data (edge_types ! r);
                acc = accumulated (index_of vocab) g i;
                cell = neighbors ! i ! r
            in length acc = length (filter (\<lambda>e. index_of vocab (fst e) = i) g) +
                 length (filter (\<lambda>e. index_of vocab (snd e) = i) g) \<and>
               length cell = neighbor_samples \<and>
               (acc = [] \<longrightarrow> cell = replicate neighbor_samples i) \<and>
               (acc \<noteq> [] \<and> length acc < neighbor_samples \<longrightarrow>
                  take (length acc) cell = acc \<and> set (drop (length acc) cell) \<subseteq> set acc) \<and>
               (length acc = neighbor_samples \<longrightarrow> cell = acc) \<and>
               (neighbor_samples < length acc \<longrightarrow> set cell \<subseteq> set acc)))) \<and>
     (\<forall>x y i k. index_of vocab x = i \<and> index_of vocab y \<noteq> i \<longrightarrow>
        accumulated (index_of vocab) (replicate k (x, y)) i = replicate k (index_of vocab y)) \<and>
     (\<forall>r < length edge_types. \<forall>table. shape table num_nodes (length edge_types) \<longrightarrow>
        (\<exists>table'. edges_loop vocab r table (edges_of network_data (edge_types ! r)) = Inr table' \<and>
           (\<forall>i < num_nodes. table' ! i ! r =
              table ! i ! r @
              accumulated (index_of vocab) (edges_of network_data (edge_types ! r)) i)))"
proof -
  from generate_neighbors_cells [OF assms, of rnd neighbor_samples]
  obtain neighbors where
    e: "generate_neighbors rnd network_data vocab num_nodes edge_types neighbor_samples = Inr neighbors"
    and s: "shape neighbors num_nodes (length edge_types)"
    and c: "\<forall>i < num_nodes. \<forall>r < length edge_types.
        reconciled i neighbor_samples
          (accumulated (index_of vocab) (edges_of network_data (edge_types ! r)) i)
          (neighbors ! i ! r)"
    by (elim exE conjE) (rule that)
  have len: "length neighbors = num_nodes"
    using s by (simp add: shape_def)
  have rows: "\<forall>i < num_nodes. length (neighbors ! i) = length edge_types \<and>
        (\<forall>r < length edge_types.
           (let g = edges_of network_data (edge_types ! r);
                acc = accumulated (index_of vocab) g i;
                cell = neighbors ! i ! r
            in length acc = length (filter (\<lambda>e. index_of vocab (fst e) = i) g) +
                 length (filter (\<lambda>e. index_of vocab (snd e) = i) g) \<and>
               length cell = neighbor_samples \<and>
               (acc = [] \<longrightarrow> cell = replicate neighbor_samples i) \<and>
               (acc \<noteq> [] \<and> length acc < neighbor_samples \<longrightarrow>
                  take (length acc) cell = acc \<and> set (drop (length acc) cell) \<subseteq> set acc) \<and>
               (length acc = neighbor_samples \<longrightarrow> cell = acc) \<and>
               (neighbor_samples < length acc \<longrightarrow> set cell \<subseteq> set acc)))"
  proof (intro allI impI conjI)
    fix i assume i: "i < num_nodes"
    show "length (neighbors ! i) = length edge_types"
      using s i by (simp add: shape_def)
    fix r assume r: "r < length edge_types"
    have "reconciled i neighbor_samples
          (accumulated (index_of vocab) (edges_of network_data (edge_types ! r)) i)
          (neighbors ! i ! r)"
      using c i r by blast
    then show "let g = edges_of network_data (edge_types ! r);
                acc = accumulated (index_of vocab) g i;
                cell = neighbors ! i ! r
            in length acc = length (filter (\<lambda>e. index_of vocab (fst e) = i) g) +
                 length (filter (\<lambda>e. index_of vocab (snd e) = i) g) \<and>
               length cell = neighbor_samples \<and>
               (acc = [] \<longrightarrow> cell = replicate neighbor_samples i) \<and>
               (acc \<noteq> [] \<and> length acc < neighbor_samples \<longrightarrow>
                  take (length acc) cell = acc \<and> set (drop (length acc) cell) \<subseteq> set acc) \<and>
               (length acc = neighbor_samples \<longrightarrow> cell = acc) \<and>
               (neighbor_samples < length acc \<longrightarrow> set cell \<subseteq> set acc)"
      unfolding Let_def reconciled_def
      using accumulated_length [of "index_of vocab" "edges_of network_data (edge_types ! r)" i]
      by blast
  qed
  have dup: "\<forall>x y i k. index_of vocab x = i \<and> index_of vocab y \<noteq> i \<longrightarrow>
        accumulated (index_of vocab) (replicate k (x, y)) i = replicate k (index_of vocab y)"
    by (simp add: accumulated_duplicates)
  have loop: "\<forall>r < length edge_types. \<forall>table. shape table num_nodes (length edge_types) \<longrightarrow>
        (\<exists>table'. edges_loop vocab r table (edges_of network_data (edge_types ! r)) = Inr table' \<and>
           (\<forall>i < num_nodes. table' ! i ! r =
              table ! i ! r @
              accumulated (index_of vocab) (edges_of network_data (edge_types ! r)) i))"
  proof (intro allI impI)
    fix r table
    assume r: "r < length edge_types" and sh: "shape table num_nodes (length edge_types)"
    let ?g = "edges_of network_data (edge_types ! r)"
    have "edge_types ! r \<in> set edge_types"
      using r by simp
    then have wf: "\<forall>e \<in> set ?g. fst e \<in> dom vocab \<and> snd e \<in> dom vocab \<and>
        index_of vocab (fst e) < num_nodes \<and> index_of vocab (snd e) < num_nodes"
      using assms unfolding indexed_edges_def by blast
    from edges_loop_eq [OF sh r wf]
    obtain table' where run: "edges_loop vocab r table ?g = Inr table'"
      and cells: "\<forall>i < num_nodes. \<forall>q < length edge_types. table' ! i ! q =
        (if q = r then table ! i ! r @ accumulated (index_of vocab) ?g i else table ! i ! q)"
      by (elim exE conjE) (rule that)
    have "\<forall>i < num_nodes. table' ! i ! r = table ! i ! r @ accumulated (index_of vocab) ?g i"
      using cells r by simp
    with run show "\<exists>table'. edges_loop vocab r table ?g = Inr table' \<and>
        (\<forall>i < num_nodes. table' ! i ! r = table ! i ! r @ accumulated (index_of vocab) ?g i)"
      by blast
  qed
  show ?thesis
    by (rule exI [of _ neighbors]) (intro conjI e len rows dup loop)
qed

text \<open>
  Claim C10. A raw self-loop \<open>(x, x)\<close> appends the index of \<open>x\<close> twice to its own
  list. When the self-loop is the only edge of type position \<open>r\<close> that touches the node,
  the edge loop leaves the two entries \<open>[i, i]\<close> in its list, and the final list is
  \<^verbatim>\<open>neighbor_samples\<close> copies of the node's own index.
\<close>

theorem generate_neighbors_self_loop:
  assumes "indexed_edges network_data vocab num_nodes edge_types"
    and "r < length edge_types"
    and "network_data (edge_types ! r) = Some (g1 @ (x, x) # g2)"
    and "\<forall>e \<in> set (g1 @ g2).
           index_of vocab (fst e) \<noteq> index_of vocab x \<and> index_of vocab (snd e) \<noteq> index_of vocab x"
  shows "accumulated (index_of vocab) [(x, x)] (index_of vocab x) =
       [index_of vocab x, index_of vocab x] \<and>
     (\<exists>nb. edges_loop vocab r (replicate num_nodes (replicate (length edge_types) []))
              (g1 @ (x, x) # g2) = Inr nb \<and>
        nb ! index_of vocab x ! r = [index_of vocab x, index_of vocab x]) \<and>
     (\<exists>neighbors.
        generate_neighbors rnd network_data vocab num_nodes edge_types neighbor_samples = Inr neighbors \<and>
        neighbors ! index_of vocab x ! r = replicate neighbor_samples (index_of vocab x))"
proof (intro conjI)
  let ?i = "index_of vocab x"
  let ?g = "g1 @ (x, x) # g2"
  have g: "edges_of network_data (edge_types ! r) = ?g"
    by (simp add: edges_of_def assms(3))
  have t: "edge_types ! r \<in> set edge_types"
    using assms(2) by simp
  have wf: "\<forall>e \<in> set ?g. fst e \<in> dom vocab \<and> snd e \<in> dom vocab \<and>
           index_of vocab (fst e) < num_nodes \<and> index_of vocab (snd e) < num_nodes"
    using assms(1) t unfolding indexed_edges_def g [symmetric] by blast
  then have i: "?i < num_nodes"
    by simp
  have acc: "accumulated (index_of vocab) ?g ?i = [?i, ?i]"
    using assms(4) by (rule accumulated_self_loop)
  show "accumulated (index_of vocab) [(x, x)] ?i = [?i, ?i]"
    by (simp add: accumulated_simps incident_def)
  let ?nb = "replicate num_nodes (replicate (length edge_types) ([]::nat list))"
  have s: "shape ?nb num_nodes (length edge_types)"
    by (simp add: shape_def)
  from edges_loop_eq [OF s assms(2) wf]
  obtain nb where e: "edges_loop vocab r ?nb ?g = Inr nb"
    and c: "\<forall>i < num_nodes. \<forall>q < length edge_types. nb ! i ! q =
        (if q = r then ?nb ! i ! r @ accumulated (index_of vocab) ?g i else ?nb ! i ! q)"
    by (elim exE conjE) (rule that)
  have "nb ! ?i ! r = [?i, ?i]"
    using c i assms(2) by (simp add: acc)
  then show "\<exists>nb. edges_loop vocab r ?nb ?g = Inr nb \<and> nb ! ?i ! r = [?i, ?i]"
    using e by blast
  from generate_neighbors_cells [OF assms(1), of rnd neighbor_samples]
  obtain neighbors where
    gn: "generate_neighbors rnd network_data vocab num_nodes edge_types neighbor_samples = Inr neighbors"
    and rc: "\<forall>i < num_nodes. \<forall>r < length edge_types.
        reconciled i neighbor_samples
          (accumulated (index_of vocab) (edges_of network_data (edge_types ! r)) i)
          (neighbors ! i ! r)"
    by (elim exE conjE) (rule that)
  have "reconciled ?i neighbor_samples
      (accumulated (index_of vocab) (edges_of network_data (edge_types ! r)) ?i) (neighbors ! ?i ! r)"
    using rc i assms(2) by blast
  then have "reconciled ?i neighbor_samples [?i, ?i] (neighbors ! ?i ! r)"
    by (simp only: g acc)
  then have "neighbors ! ?i ! r = replicate neighbor_samples ?i"
    by (rule reconciled_own)
  then show "\<exists>neighbors.
        generate_neighbors rnd network_data vocab num_nodes edge_types neighbor_samples = Inr neighbors \<and>
        neighbors ! ?i ! r = replicate neighbor_samples ?i"
    using gn by blast
qed

lemma toy_indexed_edges: "indexed_edges toy_network toy_vocab 3 [''t'', ''s'']"
  by (simp add: indexed_edges_def edges_of_def toy_network_def toy_vocab_def index_of_def)

theorem generate_neighbors_table_witness:
  "indexed_edges toy_network toy_vocab 3 [''t'', ''s''] \<and>
   generate_neighbors (\<lambda>n. n) toy_network toy_vocab 3 [''t'', ''s''] 3 =
     Inr [[[1, 1, 2], [0, 0, 0]], [[0, 0, 0], [1, 1, 1]], [[0, 0, 0], [2, 2, 2]]] \<and>
   accumulated (index_of toy_vocab) (edges_of toy_network ''t'') 0 = [1, 1, 2, 1]"
proof -
  have run: "generate_neighbors (\<lambda>n. n) toy_network toy_vocab 3 [''t'', ''s''] 3 =
     Inr [[[1, 1, 2], [0, 0, 0]], [[0, 0, 0], [1, 1, 1]], [[0, 0, 0], [2, 2, 2]]]"
    by code_simp
  have acc: "accumulated (index_of toy_vocab) (edges_of toy_network ''t'') 0 = [1, 1, 2, 1]"
    by code_simp
  show ?thesis
    using toy_indexed_edges run acc
      generate_neighbors_table [OF toy_indexed_edges, of "\<lambda>n. n" 3]
    by simp
qed

theorem generate_neighbors_self_loop_witness:
  "indexed_edges toy_network toy_vocab 3 [''t'', ''s''] \<and>
   (1::nat) < length [''t'', ''s''] \<and>
   toy_network ([''t'', ''s''] ! 1) = Some ([] @ (''c'', ''c'') # []) \<and>
   generate_neighbors (\<lambda>n. 7 * n + 3) toy_network toy_vocab 3 [''t'', ''s''] 5 =
     Inr [[[1, 1, 2, 1, 1], [0, 0, 0, 0, 0]], [[0, 0, 0, 0, 0], [1, 1, 1, 1, 1]],
          [[0, 0, 0, 0, 0], [2, 2, 2, 2, 2]]]"
proof -
  have r: "(1::nat) < length [''t'', ''s'']"
    by simp
  have g: "toy_network ([''t'', ''s''] ! 1) = Some ([] @ (''c'', ''c'') # [])"
    by (simp add: toy_network_def)
  have alone: "\<forall>e \<in> set ([] @ []). index_of toy_vocab (fst e) \<noteq> index_of toy_vocab ''c'' \<and>
      index_of toy_vocab (snd e) \<noteq> index_of toy_vocab ''c''"
    by simp
  have run: "generate_neighbors (\<lambda>n. 7 * n + 3) toy_network toy_vocab 3 [''t'', ''s''] 5 =
     Inr [[[1, 1, 2, 1, 1], [0, 0, 0, 0, 0]], [[0, 0, 0, 0, 0], [1, 1, 1, 1, 1]],
          [[0, 0, 0, 0, 0], [2, 2, 2, 2, 2]]]"
    by code_simp
  show ?thesis
    using toy_indexed_edges r g run
      generate_neighbors_self_loop [OF toy_indexed_edges r g alone, of "\<lambda>n. 7 * n + 3" 5]
    by simp
qed

section \<open>The evaluation\<close>

lemma edge_scores_simps:
  "edge_scores cosine model [] = []"
  "edge_scores cosine model (edge # edges) =
     (case get_score cosine model (fst edge) (snd edge) of
        None \<Rightarrow> edge_scores cosine model edges
      | Some s \<Rightarrow> s # edge_scores cosine model edges)"
  by (simp_all add: edge_scores_def List.map_filter_simps split: option.splits)

lemma edge_scores_append:
  "edge_scores cosine model (es @ fs) = edge_scores cosine model es @ edge_scores cosine model fs"
  by (induction es) (simp_all add: edge_scores_simps split: option.splits)

lemma get_score_missing:
  "model node1 = None \<or> model node2 = None \<Longrightarrow> get_score cosine model node1 node2 = None"
  by (auto simp: get_score_def split: option.splits)

lemma edge_scores_unscoreable:
  "\<not> scoreable model edge \<Longrightarrow> edge_scores cosine model [edge] = []"
  by (simp add: edge_scores_simps scoreable_def get_score_missing)

lemma score_true_edges_eq:
  "score_true_edges cosine model st edges =
     st\<lparr>true_list := true_list st @ replicate (length (edge_scores cosine model edges)) 1,
        prediction_list := prediction_list st @ edge_scores cosine model edges,
        true_num := true_num st + length (edge_scores cosine model edges)\<rparr>"
proof (induction edges arbitrary: st)
  case Nil
  show ?case by (simp add: edge_scores_simps)
next
  case (Cons edge edges)
  show ?case
    by (cases "get_score cosine model (fst edge) (snd edge)")
       (simp_all add: Cons.IH edge_scores_simps replicate_append_same)
qed

lemma score_false_edges_eq:
  "score_false_edges cosine model st edges =
     st\<lparr>true_list := true_list st @ replicate (length (edge_scores cosine model edges)) 0,
        prediction_list := prediction_list st @ edge_scores cosine model edges\<rparr>"
proof (induction edges arbitrary: st)
  case Nil
  show ?case by (simp add: edge_scores_simps)
next
  case (Cons edge edges)
  show ?case
    by (cases "get_score cosine model (fst edge) (snd edge)")
       (simp_all add: Cons.IH edge_scores_simps replicate_append_same)
qed

lemma score_edges_eq:
  "score_edges cosine model true_edges false_edges =
     \<lparr>true_list = replicate (length (edge_scores cosine model true_edges)) 1 @
                   replicate (length (edge_scores cosine model false_edges)) 0,
      prediction_list = edge_scores cosine model true_edges @ edge_scores cosine model false_edges,
      true_num = length (edge_scores cosine model true_edges)\<rparr>"
  by (simp add: score_edges_def score_true_edges_eq score_false_edges_eq)


lemma py_position_from_end:
  assumes "1 \<le> k" and "k \<le> n"
  shows "py_position n (- int k) = Inr (n - k)"
proof -
  have neg: "- int k < 0"
    using assms(1) by simp
  have eq: "int n + - int k = int (n - k)"
    using assms(2) by (simp add: of_nat_diff)
  have lt: "n - k < n"
    using assms by arith
  show ?thesis
    unfolding py_position_def Let_def if_P [OF neg] eq
    using lt by simp
qed

lemma py_getitem_from_end:
  assumes "1 \<le> k" and "k \<le> length xs"
  shows "py_getitem xs (- int k) = Inr (xs ! (length xs - k))"
  by (simp only: py_getitem_def py_position_from_end [OF assms] and_then.simps)


lemma mark_predictions_length:
  "length (mark_predictions scores threshold y_pred is) = length y_pred"
  by (induction "is" arbitrary: y_pred) simp_all

lemma mark_predictions_nth:
  assumes "i < length y_pred"
  shows "mark_predictions scores threshold y_pred is ! i =
     (if i \<in> set is \<and> float_ge (scores ! i) threshold then 1 else y_pred ! i)"
  using assms
proof (induction "is" arbitrary: y_pred)
  case Nil
  show ?case by simp
next
  case (Cons j js)
  show ?case
  proof (cases "float_ge (scores ! j) threshold")
    case True
    have len: "i < length (y_pred[j := 1])"
      using Cons.prems by simp
    have upd: "y_pred[j := 1] ! i = (if i = j then 1 else y_pred ! i)"
      using Cons.prems by (simp add: nth_list_update)
    have "mark_predictions scores threshold y_pred (j # js) ! i =
        mark_predictions scores threshold (y_pred[j := 1]) js ! i"
      using True by simp
    also have "\<dots> =
        (if i \<in> set js \<and> float_ge (scores ! i) threshold then 1 else y_pred[j := 1] ! i)"
      by (rule Cons.IH [OF len])
    finally have step: "mark_predictions scores threshold y_pred (j # js) ! i =
        (if i \<in> set js \<and> float_ge (scores ! i) threshold then 1 else y_pred[j := 1] ! i)" .
    show ?thesis
    proof (cases "i = j")
      case True
      with \<open>float_ge (scores ! j) threshold\<close> show ?thesis
        unfolding step upd by simp
    next
      case False
      then show ?thesis
        unfolding step upd by simp
    qed
  next
    case False
    have "mark_predictions scores threshold y_pred (j # js) ! i =
        mark_predictions scores threshold y_pred js ! i"
      using False by simp
    also have "\<dots> = (if i \<in> set js \<and> float_ge (scores ! i) threshold then 1 else y_pred ! i)"
      by (rule Cons.IH [OF Cons.prems])
    finally show ?thesis
      using False by auto
  qed
qed

lemma predict_length: "length (predict scores threshold) = length scores"
  by (simp add: predict_def mark_predictions_length)

lemma predict_nth:
  "i < length scores \<Longrightarrow>
     predict scores threshold ! i = (if float_ge (scores ! i) threshold then 1 else 0)"
  by (simp add: predict_def mark_predictions_nth)

lemma sorted_above_count:
  fixes xs :: "('s::linorder) list"
  assumes "sorted xs" and "k < length xs"
  shows "length (filter (\<lambda>s. xs ! k < s) xs) < length xs - k"
    and "length xs - k \<le> length (filter (\<lambda>s. xs ! k \<le> s) xs)"
proof -
  have split1: "xs = take (Suc k) xs @ drop (Suc k) xs" by simp
  have low: "filter (\<lambda>s. xs ! k < s) (take (Suc k) xs) = []"
  proof -
    have "\<forall>s \<in> set (take (Suc k) xs). \<not> xs ! k < s"
    proof
      fix s assume "s \<in> set (take (Suc k) xs)"
      then obtain j where j: "j < Suc k" "j < length xs" "s = xs ! j"
        by (auto simp: in_set_conv_nth)
      have "xs ! j \<le> xs ! k"
        using assms(1) by (rule sorted_nth_mono) (use j assms(2) in simp_all)
      then show "\<not> xs ! k < s"
        by (simp add: j not_less)
    qed
    then show ?thesis by (simp add: filter_empty_conv)
  qed
  have "filter (\<lambda>s. xs ! k < s) xs =
      filter (\<lambda>s. xs ! k < s) (take (Suc k) xs) @ filter (\<lambda>s. xs ! k < s) (drop (Suc k) xs)"
    by (subst (1) split1) (simp only: filter_append)
  then have "filter (\<lambda>s. xs ! k < s) xs = filter (\<lambda>s. xs ! k < s) (drop (Suc k) xs)"
    by (simp only: low append_Nil)
  moreover have "length (filter (\<lambda>s. xs ! k < s) (drop (Suc k) xs)) \<le> length (drop (Suc k) xs)"
    by (rule length_filter_le)
  ultimately have "length (filter (\<lambda>s. xs ! k < s) xs) \<le> length xs - Suc k"
    by simp
  then show "length (filter (\<lambda>s. xs ! k < s) xs) < length xs - k"
    using assms(2) by simp
  have high: "filter (\<lambda>s. xs ! k \<le> s) (drop k xs) = drop k xs"
  proof -
    have "\<forall>s \<in> set (drop k xs). xs ! k \<le> s"
    proof
      fix s assume "s \<in> set (drop k xs)"
      then obtain j where j: "j < length xs - k" "s = xs ! (k + j)"
        by (auto simp: in_set_conv_nth)
      have "xs ! k \<le> xs ! (k + j)"
        using assms(1) by (rule sorted_nth_mono) (use j in simp_all)
      then show "xs ! k \<le> s"
        by (simp only: j)
    qed
    then show ?thesis by simp
  qed
  have "filter (\<lambda>s. xs ! k \<le> s) xs =
      filter (\<lambda>s. xs ! k \<le> s) (take k xs) @ filter (\<lambda>s. xs ! k \<le> s) (drop k xs)"
    by (subst (1) append_take_drop_id [of k xs, symmetric]) (simp only: filter_append)
  then show "length xs - k \<le> length (filter (\<lambda>s. xs ! k \<le> s) xs)"
    using high by simp
qed

lemma length_filter_sort:
  "length (filter P (sort xs)) = length (filter P xs)"
  by (simp add: filter_sort)

lemma mset_take_drop: "mset (take n xs) + mset (drop n xs) = mset xs"
  by (simp only: mset_append [symmetric] append_take_drop_id)

lemma mset_binarysort: "mset (binarysort run rest) = mset run + mset rest"
proof (induction rest arbitrary: run)
  case Nil
  show ?case by simp
next
  case (Cons pivot rest)
  have "mset (take l run @ pivot # drop l run) = add_mset pivot (mset run)" for l
    using mset_take_drop [of l run] by simp
  then show ?case
    by (simp add: Cons.IH Let_def)
qed

lemma mset_list_sort: "mset (list_sort xs) = mset xs"
proof -
  obtain n d where run: "count_run xs = (n, d)"
    by (cases "count_run xs")
  show ?thesis
    using mset_take_drop [of n xs] by (simp add: list_sort_def run mset_binarysort Let_def)
qed

lemma length_list_sort: "length (list_sort xs) = length xs"
  using mset_list_sort [of xs] by (metis size_mset)


lemma binary_search_numbers:
  fixes ys :: "('s::linorder) list"
  assumes "sorted ys" and "l \<le> r" and "r \<le> length ys"
    and "\<forall>i<l. ys ! i \<le> p" and "\<forall>i. r \<le> i \<and> i < length ys \<longrightarrow> p < ys ! i"
  shows "l \<le> binary_search (map Num ys) (Num p) l r \<and>
    binary_search (map Num ys) (Num p) l r \<le> r \<and>
    (\<forall>i < binary_search (map Num ys) (Num p) l r. ys ! i \<le> p) \<and>
    (\<forall>i. binary_search (map Num ys) (Num p) l r \<le> i \<and> i < length ys \<longrightarrow> p < ys ! i)"
  using assms(2-5)
proof (induction "r - l" arbitrary: l r rule: less_induct)
  case less
  show ?case
  proof (cases "l < r")
    case False
    then have "binary_search (map Num ys) (Num p) l r = l" and "l = r"
      using less.prems(1) by (simp_all add: binary_search.simps)
    then show ?thesis
      using less.prems by simp
  next
    case True
    define m where "m = l + (r - l) div 2"
    have m: "l \<le> m" "m < r" "m < length ys"
      using True less.prems(2) by (simp_all add: m_def)
    have key: "map Num ys ! m = Num (ys ! m)"
      using m(3) by simp
    show ?thesis
    proof (cases "p < ys ! m")
      case True
      have step: "binary_search (map Num ys) (Num p) l r = binary_search (map Num ys) (Num p) l m"
        using \<open>l < r\<close> True
        by (subst binary_search.simps) (simp add: m_def [symmetric] key Let_def)
      have above: "\<forall>i. m \<le> i \<and> i < length ys \<longrightarrow> p < ys ! i"
      proof (intro allI impI)
        fix i assume i: "m \<le> i \<and> i < length ys"
        have "ys ! m \<le> ys ! i"
          using assms(1) by (rule sorted_nth_mono) (use i in simp_all)
        with True show "p < ys ! i"
          by simp
      qed
      have "m - l < r - l"
        using m by simp
      from less.hyps [OF this m(1) _ less.prems(3) above] m(3)
      show ?thesis
        unfolding step using m(2) by simp
    next
      case False
      have step: "binary_search (map Num ys) (Num p) l r =
          binary_search (map Num ys) (Num p) (m + 1) r"
        using \<open>l < r\<close> False
        by (subst binary_search.simps) (simp add: m_def [symmetric] key Let_def)
      have below: "\<forall>i < m + 1. ys ! i \<le> p"
      proof (intro allI impI)
        fix i assume i: "i < m + 1"
        have "ys ! i \<le> ys ! m"
          using assms(1) by (rule sorted_nth_mono) (use i m(3) in simp_all)
        with False show "ys ! i \<le> p"
          by simp
      qed
      have "r - (m + 1) < r - l"
        using m by simp
      from less.hyps [OF this _ less.prems(2) below less.prems(4)] m(2)
      show ?thesis
        unfolding step using m(1) by simp
    qed
  qed
qed

lemma sorted_insert_at:
  fixes ys :: "('s::linorder) list"
  assumes "sorted ys" and "k \<le> length ys"
    and "\<forall>i<k. ys ! i \<le> p" and "\<forall>i. k \<le> i \<and> i < length ys \<longrightarrow> p < ys ! i"
  shows "sorted (take k ys @ p # drop k ys)"
proof -
  have low: "\<forall>x \<in> set (take k ys). x \<le> p"
  proof
    fix x assume "x \<in> set (take k ys)"
    then obtain i where "i < k" "i < length ys" "x = ys ! i"
      by (auto simp: in_set_conv_nth)
    then show "x \<le> p"
      using assms(3) by simp
  qed
  have high: "\<forall>y \<in> set (drop k ys). p < y"
  proof
    fix y assume "y \<in> set (drop k ys)"
    then obtain j where "j < length ys - k" "y = ys ! (k + j)"
      by (auto simp: in_set_conv_nth)
    then show "p < y"
      using assms(4) by simp
  qed
  have "sorted (take k ys)" and "sorted (drop k ys)"
    using assms(1) by (simp_all add: sorted_wrt_take sorted_wrt_drop)
  moreover have "\<forall>x \<in> set (take k ys). \<forall>y \<in> set (p # drop k ys). x \<le> y"
    using low high by fastforce
  moreover have "\<forall>y \<in> set (drop k ys). p \<le> y"
    using high by fastforce
  ultimately show ?thesis
    by (simp add: sorted_append)
qed

lemma sort_unique:
  fixes xs ys :: "('s::linorder) list"
  assumes "mset xs = mset ys"
  shows "sort xs = sort ys"
  by (rule properties_for_sort) (simp_all add: assms)

lemma binarysort_numbers:
  fixes ys :: "('s::linorder) list"
  assumes "sorted ys"
  shows "binarysort (map Num ys) (map Num zs) = map Num (sort (ys @ zs))"
  using assms
proof (induction zs arbitrary: ys)
  case Nil
  then show ?case
    by (simp add: sort_key_id_if_sorted)
next
  case (Cons z zs)
  define k where "k = binary_search (map Num ys) (Num z) 0 (length ys)"
  have none: "\<forall>i<0. ys ! i \<le> z" "\<forall>i. length ys \<le> i \<and> i < length ys \<longrightarrow> z < ys ! i"
    by auto
  have k: "k \<le> length ys" "\<forall>i<k. ys ! i \<le> z" "\<forall>i. k \<le> i \<and> i < length ys \<longrightarrow> z < ys ! i"
    using binary_search_numbers [OF Cons.prems le0 order_refl none] unfolding k_def by blast+
  let ?next = "take k ys @ z # drop k ys"
  have srt: "sorted ?next"
    using Cons.prems k by (rule sorted_insert_at)
  have ms: "mset (?next @ zs) = mset (ys @ z # zs)"
    using mset_take_drop [of k ys] by simp
  have "binarysort (map Num ys) (map Num (z # zs)) = binarysort (map Num ?next) (map Num zs)"
    by (simp add: k_def [symmetric] Let_def take_map drop_map)
  also have "\<dots> = map Num (sort (?next @ zs))"
    using srt by (rule Cons.IH)
  also have "sort (?next @ zs) = sort (ys @ z # zs)"
    using ms by (rule sort_unique)
  finally show ?case .
qed

lemma run_end_ascending:
  fixes ys :: "('s::linorder) list"
  shows "sorted (previous # take (run_end False (Num previous) (map Num ys)) ys)"
proof (induction ys arbitrary: previous)
  case Nil
  show ?case by simp
next
  case (Cons y ys)
  show ?case
    using Cons.IH [of y] by (auto simp: not_less)
qed

lemma run_end_descending:
  fixes ys :: "('s::linorder) list"
  shows "sorted_wrt (\<lambda>a b. b < a) (previous # take (run_end True (Num previous) (map Num ys)) ys)"
proof (induction ys arbitrary: previous)
  case Nil
  show ?case by simp
next
  case (Cons y ys)
  show ?case
    using Cons.IH [of y] by auto
qed

lemma list_sort_map_Num:
  fixes ys :: "('s::linorder) list"
  shows "list_sort (map Num ys) = map Num (sort ys)"
proof (cases ys)
  case Nil
  then show ?thesis
    by (simp add: list_sort_def count_run_def)
next
  case (Cons x xs)
  show ?thesis
  proof (cases xs)
    case Nil
    then show ?thesis
      by (simp add: Cons list_sort_def count_run_def)
  next
    case (Cons y rest)
    define d where "d = (y < x)"
    define k where "k = run_end d (Num y) (map Num rest)"
    let ?run = "x # y # take k rest"
    have ys: "ys = ?run @ drop k rest"
      by (simp add: \<open>ys = x # xs\<close> Cons)
    have cr: "count_run (map Num ys) = (2 + k, d)"
      by (simp add: \<open>ys = x # xs\<close> Cons count_run_def k_def d_def)
    have tk: "take (2 + k) (map Num ys) = map Num ?run"
      and dr: "drop (2 + k) (map Num ys) = map Num (drop k rest)"
      by (simp_all add: \<open>ys = x # xs\<close> Cons take_map drop_map)
    show ?thesis
    proof (cases d)
      case False
      have "sorted (y # take k rest)"
        using run_end_ascending [of y rest] False by (simp add: k_def)
      moreover have "x \<le> y"
        using False by (simp add: d_def)
      ultimately have srt: "sorted ?run"
        by auto
      have "list_sort (map Num ys) = binarysort (map Num ?run) (map Num (drop k rest))"
        using False by (simp only: list_sort_def cr Let_def prod.case tk dr if_False)
      also have "\<dots> = map Num (sort (?run @ drop k rest))"
        using srt by (rule binarysort_numbers)
      finally show ?thesis
        by (simp only: ys [symmetric])
    next
      case True
      have "sorted_wrt (\<lambda>a b. b < a) (y # take k rest)"
        using run_end_descending [of y rest] True by (simp add: k_def)
      moreover have "y < x"
        using True by (simp add: d_def)
      ultimately have "sorted_wrt (\<lambda>a b. b < a) ?run"
        by auto
      then have "sorted_wrt (\<lambda>a b. b \<le> a) ?run"
        by (rule sorted_wrt_mono_rel [rotated]) simp
      then have srt: "sorted (rev ?run)"
        by (simp only: sorted_wrt_rev)
      have "list_sort (map Num ys) = binarysort (map Num (rev ?run)) (map Num (drop k rest))"
        using True by (simp only: list_sort_def cr Let_def prod.case tk dr if_True rev_map)
      also have "\<dots> = map Num (sort (rev ?run @ drop k rest))"
        using srt by (rule binarysort_numbers)
      also have "sort (rev ?run @ drop k rest) = sort ys"
        using mset_take_drop [of k rest]
        by (intro sort_unique) (simp add: \<open>ys = x # xs\<close> Cons)
      finally show ?thesis .
    qed
  qed
qed

lemma numbers_simps:
  "numbers [] = []"
  "numbers (NaN # xs) = numbers xs"
  "numbers (Num a # xs) = a # numbers xs"
  by (simp_all add: numbers_def List.map_filter_simps)

lemma map_Num_numbers: "NaN \<notin> set xs \<Longrightarrow> map Num (numbers xs) = xs"
proof (induction xs)
  case Nil
  show ?case by (simp add: numbers_simps)
next
  case (Cons x xs)
  then show ?case
    by (cases x) (simp_all add: numbers_simps)
qed

lemma list_sort_numbers:
  fixes xs :: "('s::linorder) py_float list"
  assumes "NaN \<notin> set xs"
  shows "list_sort xs = map Num (sort (numbers xs))"
  using list_sort_map_Num [of "numbers xs"] by (simp only: map_Num_numbers [OF assms])

lemma count_above_numbers:
  fixes qs :: "('s::linorder) list"
  shows "length (filter (\<lambda>s. float_lt (Num t) s) (map Num qs)) = length (filter (\<lambda>q. t < q) qs)"
    and "length (filter (\<lambda>s. float_ge s (Num t)) (map Num qs)) = length (filter (\<lambda>q. t \<le> q) qs)"
  by (induction qs) simp_all

lemma rank_threshold_eq:
  assumes "1 \<le> true_num st" and "true_num st \<le> length (prediction_list st)"
  shows "rank_threshold st =
     Inr (list_sort (prediction_list st) ! (length (prediction_list st) - true_num st))"
proof -
  have "true_num st \<le> length (list_sort (prediction_list st))"
    using assms(2) by (simp only: length_list_sort)
  from py_getitem_from_end [OF assms(1) this] show ?thesis
    by (simp add: rank_threshold_def length_list_sort)
qed

lemma rev_nth_from_end:
  assumes "1 \<le> k" and "k \<le> length xs"
  shows "rev xs ! (k - 1) = xs ! (length xs - k)"
proof -
  have "k - 1 < length xs"
    using assms by arith
  then have "rev xs ! (k - 1) = xs ! (length xs - Suc (k - 1))"
    by (rule rev_nth)
  also have "Suc (k - 1) = k"
    using assms(1) by simp
  finally show ?thesis .
qed

lemma evaluate_scored:
  assumes "rank_threshold (score_edges cosine model true_edges false_edges) = Inr threshold"
  shows "evaluate cosine metrics model true_edges false_edges =
     metrics (true_list (score_edges cosine model true_edges false_edges))
       (prediction_list (score_edges cosine model true_edges false_edges))
       (predict (prediction_list (score_edges cosine model true_edges false_edges)) threshold)"
  by (simp add: evaluate_def Let_def assms)


lemma score_edges_skip_true:
  assumes "\<not> scoreable model edge"
  shows "score_edges cosine model (es @ edge # fs) false_edges =
     score_edges cosine model (es @ fs) false_edges"
proof -
  have "edge_scores cosine model (es @ edge # fs) = edge_scores cosine model (es @ fs)"
    using edge_scores_unscoreable [OF assms, of cosine]
    by (simp add: edge_scores_append edge_scores_append [of cosine model "[edge]" fs, simplified])
  then show ?thesis
    by (simp add: score_edges_eq)
qed

lemma score_edges_skip_false:
  assumes "\<not> scoreable model edge"
  shows "score_edges cosine model true_edges (es @ edge # fs) =
     score_edges cosine model true_edges (es @ fs)"
proof -
  have "edge_scores cosine model (es @ edge # fs) = edge_scores cosine model (es @ fs)"
    using edge_scores_unscoreable [OF assms, of cosine]
    by (simp add: edge_scores_append edge_scores_append [of cosine model "[edge]" fs, simplified])
  then show ?thesis
    by (simp add: score_edges_eq)
qed

lemma evaluate_cong:
  assumes "score_edges cosine model t f = score_edges cosine model t' f'"
  shows "evaluate cosine metrics model t f = evaluate cosine metrics model t' f'"
  by (simp add: evaluate_def assms)




text \<open>
  Claim C2, as stated, fails where a recorded score is NaN. One true edge scores 0.8
  and the false edges score NaN (node \<open>z\<close> has a vector of norm 0) and 0.6, so that
  \<^verbatim>\<open>true_num\<close> is 1, within the precondition. No item of the list
  \<open>[0.8, NaN, 0.6]\<close> is less than the one before it, \<^verbatim>\<open>sorted_pred.sort()\<close> leaves the
  list as it is, and the threshold is its last item 0.6: not the largest score, since 0.8
  lies strictly above it, and both 0.8 and 0.6 are predicted positive.
\<close>

theorem evaluate_nan_score_counterexample:
  "prediction_list (score_edges example_cosine example_model
      [(''c'', ''u'')] [(''z'', ''u''), (''d'', ''u'')]) = [Num 0.8, NaN, Num 0.6] \<and>
   true_num (score_edges example_cosine example_model
      [(''c'', ''u'')] [(''z'', ''u''), (''d'', ''u'')]) = 1 \<and>
   list_sort [Num (0.8::real), NaN, Num 0.6] = [Num 0.8, NaN, Num 0.6] \<and>
   rank_threshold (score_edges example_cosine example_model
      [(''c'', ''u'')] [(''z'', ''u''), (''d'', ''u'')]) = Inr (Num 0.6) \<and>
   float_lt (Num (0.6::real)) (Num 0.8) \<and>
   predict [Num (0.8::real), NaN, Num 0.6] (Num 0.6) = [1, 0, 1]"
proof -
  let ?st = "score_edges example_cosine example_model
      [(''c'', ''u'')] [(''z'', ''u''), (''d'', ''u'')]"
  have st: "?st = \<lparr>true_list = [1, 0, 0], prediction_list = [Num 0.8, NaN, Num 0.6],
      true_num = 1\<rparr>"
    by (simp add: score_edges_def get_score_def example_model_def example_cosine_def)
  have srt: "list_sort [Num (0.8::real), NaN, Num 0.6] = [Num 0.8, NaN, Num 0.6]"
    by (simp add: list_sort_def count_run_def)
  have thr: "rank_threshold ?st = Inr (Num 0.6)"
    unfolding rank_threshold_def st scored.select_convs srt
    by (simp add: py_getitem_def py_position_def)
  have pred: "predict [Num (0.8::real), NaN, Num 0.6] (Num 0.6) = [1, 0, 1]"
    by (simp add: predict_def upt_conv_Cons)
  show ?thesis
    using srt thr pred by (simp add: st)
qed

text \<open>
  Claim C2, amended. When \<open>1 \<le> true_num\<close>, \<open>true_num\<close> is at most the number of
  recorded scores and no recorded score is NaN, \<^verbatim>\<open>sorted_pred.sort()\<close> yields the
  recorded scores in ascending order, and the threshold of \<^verbatim>\<open>evaluate\<close> is the score at
  position \<open>true_num\<close> from the end of it, that is the \<open>true_num\<close>-th largest one:
  fewer than \<open>true_num\<close> recorded scores lie strictly above it and at least \<open>true_num\<close>
  are greater or equal. Every recorded edge is predicted positive exactly when its
  score is greater than or equal to the threshold, so a tie is positive.
\<close>

theorem evaluate_rank_threshold:
  fixes cosine :: "'v \<Rightarrow> 'v \<Rightarrow> ('s::linorder) py_float option"
  assumes "st = score_edges cosine model true_edges false_edges"
    and "1 \<le> true_num st"
    and "true_num st \<le> length (prediction_list st)"
    and "NaN \<notin> set (prediction_list st)"
  shows "\<exists>threshold y_pred.
      rank_threshold st = Inr threshold \<and>
      list_sort (prediction_list st) = map Num (sort (numbers (prediction_list st))) \<and>
      threshold = list_sort (prediction_list st) ! (length (prediction_list st) - true_num st) \<and>
      threshold = rev (list_sort (prediction_list st)) ! (true_num st - 1) \<and>
      length (filter (\<lambda>s. float_lt threshold s) (prediction_list st)) < true_num st \<and>
      true_num st \<le> length (filter (\<lambda>s. float_ge s threshold) (prediction_list st)) \<and>
      evaluate cosine metrics model true_edges false_edges =
        metrics (true_list st) (prediction_list st) y_pred \<and>
      length y_pred = length (prediction_list st) \<and>
      (\<forall>i < length (prediction_list st).
         y_pred ! i = (if float_ge (prediction_list st ! i) threshold then 1 else 0))"
proof -
  let ?ps = "prediction_list st"
  let ?qs = "numbers ?ps"
  let ?k = "length ?ps - true_num st"
  let ?t = "sort ?qs ! ?k"
  have ps: "map Num ?qs = ?ps"
    using assms(4) by (rule map_Num_numbers)
  have lq: "length ?qs = length ?ps"
    using arg_cong [OF ps, of length] by simp
  have srt_eq: "list_sort ?ps = map Num (sort ?qs)"
    using assms(4) by (rule list_sort_numbers)
  have k: "?k < length (sort ?qs)"
    using assms(2,3) by (simp add: lq)
  have nth: "list_sort ?ps ! ?k = Num ?t"
    unfolding srt_eq using k by simp
  have thr: "rank_threshold st = Inr (Num ?t)"
    using rank_threshold_eq [OF assms(2,3)] by (simp only: nth)
  have len: "true_num st \<le> length (list_sort ?ps)"
    using assms(3) by (simp only: length_list_sort)
  have rv: "Num ?t = rev (list_sort ?ps) ! (true_num st - 1)"
    using rev_nth_from_end [OF assms(2) len] by (simp only: length_list_sort nth)
  have srt: "sorted (sort ?qs)"
    by simp
  have diff: "length (sort ?qs) - ?k = true_num st"
    using assms(2,3) by (simp add: lq)
  have "length (filter (\<lambda>q. ?t < q) ?qs) < true_num st"
    using sorted_above_count(1) [OF srt k] by (simp only: length_filter_sort diff)
  then have "length (filter (\<lambda>s. float_lt (Num ?t) s) (map Num ?qs)) < true_num st"
    by (simp only: count_above_numbers)
  then have above: "length (filter (\<lambda>s. float_lt (Num ?t) s) ?ps) < true_num st"
    by (simp only: ps)
  have "true_num st \<le> length (filter (\<lambda>q. ?t \<le> q) ?qs)"
    using sorted_above_count(2) [OF srt k] by (simp only: length_filter_sort diff)
  then have "true_num st \<le> length (filter (\<lambda>s. float_ge s (Num ?t)) (map Num ?qs))"
    by (simp only: count_above_numbers)
  then have atleast: "true_num st \<le> length (filter (\<lambda>s. float_ge s (Num ?t)) ?ps)"
    by (simp only: ps)
  have ev: "evaluate cosine metrics model true_edges false_edges =
      metrics (true_list st) ?ps (predict ?ps (Num ?t))"
    using evaluate_scored [of cosine model true_edges false_edges "Num ?t" metrics] thr
    by (simp only: assms(1))
  have each: "\<forall>i < length ?ps. predict ?ps (Num ?t) ! i =
      (if float_ge (?ps ! i) (Num ?t) then 1 else 0)"
    by (simp add: predict_nth)
  show ?thesis
    using thr srt_eq nth [symmetric] rv above atleast ev predict_length [of ?ps "Num ?t"] each
    by blast
qed

text \<open>
  Claim C8. \<^verbatim>\<open>get_score\<close> returns \<^verbatim>\<open>None\<close>, and raises nothing, when either node
  is missing from the lookup; an edge with a missing node, wherever it stands among the
  true or the false edges, changes neither the recorded labels, the recorded scores and
  \<^verbatim>\<open>true_num\<close>, nor the result of \<^verbatim>\<open>evaluate\<close>.
\<close>

theorem unscoreable_edge_excluded:
  "(model u = None \<or> model v = None \<longrightarrow> get_score cosine model u v = None) \<and>
   (model (fst edge) = None \<or> model (snd edge) = None \<longrightarrow>
      score_edges cosine model (es @ edge # fs) false_edges =
        score_edges cosine model (es @ fs) false_edges \<and>
      score_edges cosine model true_edges (es @ edge # fs) =
        score_edges cosine model true_edges (es @ fs) \<and>
      evaluate cosine metrics model (es @ edge # fs) false_edges =
        evaluate cosine metrics model (es @ fs) false_edges \<and>
      evaluate cosine metrics model true_edges (es @ edge # fs) =
        evaluate cosine metrics model true_edges (es @ fs))"
proof (intro conjI impI)
  assume "model u = None \<or> model v = None"
  then show "get_score cosine model u v = None"
    by (rule get_score_missing)
next
  assume "model (fst edge) = None \<or> model (snd edge) = None"
  then have un: "\<not> scoreable model edge"
    by (simp add: scoreable_def)
  show "score_edges cosine model (es @ edge # fs) false_edges =
        score_edges cosine model (es @ fs) false_edges"
    using un by (rule score_edges_skip_true)
  then show "evaluate cosine metrics model (es @ edge # fs) false_edges =
        evaluate cosine metrics model (es @ fs) false_edges"
    by (rule evaluate_cong)
  show "score_edges cosine model true_edges (es @ edge # fs) =
        score_edges cosine model true_edges (es @ fs)"
    using un by (rule score_edges_skip_false)
  then show "evaluate cosine metrics model true_edges (es @ edge # fs) =
        evaluate cosine metrics model true_edges (es @ fs)"
    by (rule evaluate_cong)
qed

theorem evaluate_rank_threshold_witness:
  "1 \<le> true_num (score_edges example_cosine example_model
      [(''a'', ''u''), (''b'', ''u'')] [(''c'', ''u''), (''d'', ''u''), (''e'', ''u'')]) \<and>
   true_num (score_edges example_cosine example_model
      [(''a'', ''u''), (''b'', ''u'')] [(''c'', ''u''), (''d'', ''u''), (''e'', ''u'')])
     \<le> length (prediction_list (score_edges example_cosine example_model
      [(''a'', ''u''), (''b'', ''u'')] [(''c'', ''u''), (''d'', ''u''), (''e'', ''u'')])) \<and>
   NaN \<notin> set (prediction_list (score_edges example_cosine example_model
      [(''a'', ''u''), (''b'', ''u'')] [(''c'', ''u''), (''d'', ''u''), (''e'', ''u'')])) \<and>
   list_sort (prediction_list (score_edges example_cosine example_model
      [(''a'', ''u''), (''b'', ''u'')] [(''c'', ''u''), (''d'', ''u''), (''e'', ''u'')])) =
     [Num 0.5, Num 0.6, Num 0.7, Num 0.8, Num 0.9] \<and>
   rank_threshold (score_edges example_cosine example_model
      [(''a'', ''u''), (''b'', ''u'')] [(''c'', ''u''), (''d'', ''u''), (''e'', ''u'')]) =
     Inr (Num 0.8) \<and>
   evaluate example_cosine (\<lambda>y_true y_scores y_pred. Inr (y_true, y_scores, y_pred)) example_model
      [(''a'', ''u''), (''b'', ''u'')] [(''c'', ''u''), (''d'', ''u''), (''e'', ''u'')] =
     Inr ([1, 1, 0, 0, 0], [Num 0.9, Num 0.7, Num 0.8, Num 0.6, Num 0.5], [1, 0, 1, 0, 0])"
proof -
  let ?st = "score_edges example_cosine example_model
      [(''a'', ''u''), (''b'', ''u'')] [(''c'', ''u''), (''d'', ''u''), (''e'', ''u'')]"
  have st: "?st = \<lparr>true_list = [1, 1, 0, 0, 0],
      prediction_list = [Num 0.9, Num 0.7, Num 0.8, Num 0.6, Num 0.5], true_num = 2\<rparr>"
    by (simp add: score_edges_def get_score_def example_model_def example_cosine_def)
  have h1: "1 \<le> true_num ?st" and h2: "true_num ?st \<le> length (prediction_list ?st)"
    and h3: "NaN \<notin> set (prediction_list ?st)"
    by (simp_all add: st)
  have nums: "numbers (prediction_list ?st) = [0.9, 0.7, 0.8, 0.6, 0.5]"
    by (simp add: st numbers_simps)
  obtain threshold y_pred where
    r: "rank_threshold ?st = Inr threshold"
    and s: "list_sort (prediction_list ?st) = map Num (sort (numbers (prediction_list ?st)))"
    and t: "threshold = list_sort (prediction_list ?st) ! (length (prediction_list ?st) - true_num ?st)"
    and e: "evaluate example_cosine (\<lambda>y_true y_scores y_pred. Inr (y_true, y_scores, y_pred))
        example_model [(''a'', ''u''), (''b'', ''u'')] [(''c'', ''u''), (''d'', ''u''), (''e'', ''u'')] =
      Inr (true_list ?st, prediction_list ?st, y_pred)"
    and l: "length y_pred = length (prediction_list ?st)"
    and p: "\<forall>i < length (prediction_list ?st).
         y_pred ! i = (if float_ge (prediction_list ?st ! i) threshold then 1 else 0)"
    using evaluate_rank_threshold [OF refl h1 h2 h3,
        of "\<lambda>y_true y_scores y_pred. Inr (y_true, y_scores, y_pred)"]
    by (elim exE conjE) (rule that)
  have srt: "list_sort (prediction_list ?st) = [Num 0.5, Num 0.6, Num 0.7, Num 0.8, Num 0.9]"
    unfolding s nums by simp
  have thr: "threshold = Num 0.8"
    unfolding t srt by (simp add: st)
  have "y_pred = [1, 0, 1, 0, 0]"
  proof (rule nth_equalityI)
    show "length y_pred = length [1, 0, 1, 0, 0]"
      using l by (simp add: st)
    fix i assume "i < length y_pred"
    then have i: "i < 5"
      using l by (simp add: st)
    then consider "i = 0" | "i = 1" | "i = 2" | "i = 3" | "i = 4"
      by linarith
    then show "y_pred ! i = [1, 0, 1, 0, 0] ! i"
      using p i by cases (simp_all add: st thr)
  qed
  then show ?thesis
    using h1 h2 h3 srt r e by (simp add: thr st)
qed

theorem unscoreable_edge_excluded_witness:
  "example_model (snd (''a'', ''x'')) = None \<and>
   get_score example_cosine example_model ''a'' ''x'' = None \<and>
   evaluate example_cosine (\<lambda>y_true y_scores y_pred. Inr (y_true, y_scores, y_pred)) example_model
      ([(''a'', ''u'')] @ (''a'', ''x'') # []) [(''c'', ''u'')] =
     Inr ([1, 0], [Num 0.9, Num 0.8], [1, 0])"
proof -
  have h: "example_model (snd (''a'', ''x'')) = None"
    by (simp add: example_model_def)
  have st: "score_edges example_cosine example_model [(''a'', ''u'')] [(''c'', ''u'')] =
      \<lparr>true_list = [1, 0], prediction_list = [Num 0.9, Num 0.8], true_num = 1\<rparr>"
    by (simp add: score_edges_def get_score_def example_model_def example_cosine_def)
  have srt: "list_sort [Num (0.9::real), Num 0.8] = [Num 0.8, Num 0.9]"
    by (simp add: list_sort_def count_run_def)
  have ev: "evaluate example_cosine (\<lambda>y_true y_scores y_pred. Inr (y_true, y_scores, y_pred))
      example_model [(''a'', ''u'')] [(''c'', ''u'')] = Inr ([1, 0], [Num 0.9, Num 0.8], [1, 0])"
    unfolding evaluate_def Let_def rank_threshold_def st scored.select_convs srt
    by (simp add: py_getitem_def py_position_def predict_def upt_conv_Cons)
  show ?thesis
    using h ev unscoreable_edge_excluded [where model = example_model and u = "''a''"
      and v = "''x''" and cosine = example_cosine and edge = "(''a'', ''x'')"
      and es = "[(''a'', ''u'')]" and fs = "[]" and false_edges = "[(''c'', ''u'')]"
      and true_edges = "[]"
      and metrics = "\<lambda>y_true y_scores y_pred. Inr (y_true, y_scores, y_pred)"]
    by simp
qed

end
